theory Spec2Isabelle
  imports Complex_Main "HOL-Library.Char_ord" "HOL-Library.List_Lexorder"
begin

section \<open>Python values: errors and double-precision floats\<close>

text \<open>
  Exceptions of \<^verbatim>\<open>Project.py\<close> are values: \<open>ZeroDivisionError\<close> is Python's own,
  \<open>OSError\<close> is what \<^verbatim>\<open>os.listdir\<close> raises on a directory it cannot read, and
  \<open>CvError\<close> is \<^verbatim>\<open>cv2.error\<close>, raised by an OpenCV call whose argument check fails.
\<close>

datatype py_error = ZeroDivisionError | OSError | CvError

text \<open>
  A finite non-negative double is a pair \<open>(m, e)\<close> standing for \<open>m * 2 ^ e\<close>.
  The only floats of the program that are computed by arithmetic are the scale factor
  and the scaled dimensions of \<^verbatim>\<open>match_symbol\<close>, all non-negative. Rounding is to
  nearest, ties to even, on 53 significant bits, with an unbounded exponent: this is
  IEEE binary64 as long as the values stay in its normal range, which quotients and
  products of image dimensions do.
\<close>

type_synonym dbl = "nat \<times> int"

definition dval :: "dbl \<Rightarrow> rat" where
  "dval d = of_nat (fst d) * 2 powi (snd d)"

fun bit_length :: "nat \<Rightarrow> nat" where
  "bit_length n = (if n = 0 then 0 else Suc (bit_length (n div 2)))"

declare bit_length.simps [simp del]

text \<open>\<open>ilog2 p q\<close> is the binary exponent of the quotient \<open>p / q\<close>: the floor of its logarithm.\<close>

definition ilog2 :: "nat \<Rightarrow> nat \<Rightarrow> int" where
  "ilog2 p q =
     (let bp = bit_length p; bq = bit_length q
      in if q * 2 ^ bp \<le> p * 2 ^ bq then int bp - int bq else int bp - int bq - 1)"

definition round_half_even :: "nat \<Rightarrow> nat \<Rightarrow> nat" where
  "round_half_even n d =
     (let k = n div d; r = n mod d
      in if 2 * r < d then k
         else if d < 2 * r then k + 1
         else if even k then k else k + 1)"

text \<open>The double nearest to the exact quotient \<open>p / q\<close> (for \<open>q > 0\<close>).\<close>

definition round_q :: "nat \<Rightarrow> nat \<Rightarrow> dbl" where
  "round_q p q =
     (if p = 0 then (0, 0)
      else let e = ilog2 p q - 52
           in (round_half_even (p * 2 ^ nat (- e)) (q * 2 ^ nat e), e))"

text \<open>\<^verbatim>\<open>a / b\<close> on two ints: true division, correctly rounded, raising on a zero divisor.\<close>

definition py_truediv :: "nat \<Rightarrow> nat \<Rightarrow> py_error + dbl" where
  "py_truediv a b = (if b = 0 then Inl ZeroDivisionError else Inr (round_q a b))"

text \<open>The conversion of an int operand to float, as \<^verbatim>\<open>int * float\<close> does first.\<close>

definition float_of_int :: "nat \<Rightarrow> dbl" where
  "float_of_int n = round_q n 1"

definition fmul :: "dbl \<Rightarrow> dbl \<Rightarrow> dbl" where
  "fmul a b =
     (let e = snd a + snd b
      in round_q (fst a * fst b * 2 ^ nat e) (2 ^ nat (- e)))"

definition flt :: "dbl \<Rightarrow> dbl \<Rightarrow> bool" where
  "flt a b =
     (int (fst a) * 2 ^ nat (snd a - snd b) < int (fst b) * 2 ^ nat (snd b - snd a))"

text \<open>\<^verbatim>\<open>min(a, b)\<close> returns its first argument unless the second is strictly smaller.\<close>

definition py_min :: "dbl \<Rightarrow> dbl \<Rightarrow> dbl" where
  "py_min a b = (if flt b a then b else a)"

text \<open>\<^verbatim>\<open>int(x)\<close> truncates towards zero; on a non-negative float that is the floor.\<close>

definition py_int :: "dbl \<Rightarrow> nat" where
  "py_int d =
     (if 0 \<le> snd d then fst d * 2 ^ nat (snd d) else fst d div 2 ^ nat (- snd d))"

section \<open>Images and the external collaborators\<close>

text \<open>
  A numpy image: \<open>rows\<close> is \<^verbatim>\<open>shape[0]\<close>, \<open>cols\<close> is \<^verbatim>\<open>shape[1]\<close>; \<open>channels\<close> is
  \<open>None\<close> for a two-dimensional (grayscale) array and \<open>Some c\<close> when \<^verbatim>\<open>len(shape) == 3\<close>.
\<close>

record image =
  rows :: nat
  cols :: nat
  channels :: "nat option"
  pixels :: "nat list"

text \<open>
  What the program calls but does not define: OpenCV's pixel operations, the file
  system, and the formatting of a float with two decimals. \<open>ccoeff_normed_max\<close> is the
  maximum of \<^verbatim>\<open>cv2.matchTemplate(frame, tmpl, cv2.TM_CCOEFF_NORMED)\<close> as
  \<^verbatim>\<open>cv2.minMaxLoc\<close> reports it; a score is the exact value of that finite float.
  \<open>listdir\<close> is \<open>None\<close> where \<^verbatim>\<open>os.listdir\<close> raises. \<open>imread_grayscale\<close> has the
  three outcomes of \<^verbatim>\<open>cv2.imread(path, cv2.IMREAD_GRAYSCALE)\<close>: \<open>Inr (Some img)\<close> for a
  decoded image, \<open>Inr None\<close> where it returns \<^verbatim>\<open>None\<close> (a file it cannot read or
  decode), and \<open>Inl err\<close> where it raises (OpenCV does so, for one, on an image whose
  header announces more pixels than it accepts).
\<close>

record env =
  cvtColor_BGR2GRAY :: "image \<Rightarrow> image"
  equalizeHist :: "image \<Rightarrow> image"
  Canny :: "image \<Rightarrow> nat \<Rightarrow> nat \<Rightarrow> image"
  resize_area :: "image \<Rightarrow> nat \<Rightarrow> nat \<Rightarrow> nat list"
  ccoeff_normed_max :: "image \<Rightarrow> image \<Rightarrow> rat"
  listdir :: "string \<Rightarrow> string list option"
  imread_grayscale :: "string \<Rightarrow> py_error + image option"
  format_2f :: "rat \<Rightarrow> string"

text \<open>
  \<^verbatim>\<open>cv2.resize(img, (w, h), interpolation=cv2.INTER_AREA)\<close>: the result has \<open>h\<close> rows
  and \<open>w\<close> columns; an empty target size fails OpenCV's argument check.
\<close>

definition cv_resize :: "env \<Rightarrow> image \<Rightarrow> nat \<times> nat \<Rightarrow> py_error + image" where
  "cv_resize cv img dsize =
     (case dsize of (w, h) \<Rightarrow>
        if w = 0 \<or> h = 0 then Inl CvError
        else Inr \<lparr>rows = h, cols = w, channels = channels img,
                  pixels = resize_area cv img w h\<rparr>)"

text \<open>
  \<^verbatim>\<open>cv2.matchTemplate\<close> followed by \<^verbatim>\<open>cv2.minMaxLoc\<close>: OpenCV rejects an empty
  template and a template that is larger than the image in either dimension.
\<close>

definition cv_match_max :: "env \<Rightarrow> image \<Rightarrow> image \<Rightarrow> py_error + rat" where
  "cv_match_max cv frame tmpl =
     (if rows tmpl = 0 \<or> cols tmpl = 0 then Inl CvError
      else if rows frame < rows tmpl \<or> cols frame < cols tmpl then Inl CvError
      else Inr (ccoeff_normed_max cv frame tmpl))"

section \<open>Configuration\<close>

definition TEMPLATES_DIR :: string where
  "TEMPLATES_DIR = ''templates''"

definition THRESHOLD :: rat where
  "THRESHOLD = 3 / 4"

definition USE_EDGES :: bool where
  "USE_EDGES = True"

definition COMMAND_MAP :: "string \<rightharpoonup> string" where
  "COMMAND_MAP = map_of
     [(''A'', ''LEFT''), (''B'', ''RIGHT''), (''C'', ''UP''),
      (''D'', ''DOWN''), (''E'', ''FRONT''), (''F'', ''BACK'')]"

definition KEY_SEND_MAP :: "string \<rightharpoonup> string" where
  "KEY_SEND_MAP = map_of
     [(''LEFT'', ''left''), (''RIGHT'', ''right''), (''UP'', ''up''),
      (''DOWN'', ''down''), (''FRONT'', ''w''), (''BACK'', ''s'')]"

section \<open>Template matching utilities\<close>

text \<open>
  The flag \<^verbatim>\<open>USE_EDGES\<close> is a module-level global that both \<^verbatim>\<open>preprocess\<close> and
  \<^verbatim>\<open>load_templates\<close> read; it is passed as an argument so that both settings can be
  spoken about.
\<close>

definition preprocess :: "env \<Rightarrow> bool \<Rightarrow> image \<Rightarrow> image" where
  "preprocess cv use_edges img =
     (let gray = (if channels img = None then img else cvtColor_BGR2GRAY cv img);
          gray = equalizeHist cv gray
      in if use_edges then Canny cv gray 50 150 else gray)"

text \<open>\<^verbatim>\<open>str.rfind\<close> of one character: the last index where it occurs, or \<open>-1\<close>.\<close>

definition rfind :: "char \<Rightarrow> string \<Rightarrow> int" where
  "rfind c s =
     (if c \<in> set s
      then int (length s) - 1 - int (length (takeWhile (\<lambda>x. x \<noteq> c) (rev s)))
      else - 1)"

text \<open>
  \<^verbatim>\<open>os.path.splitext\<close>: the extension starts at the last dot of the last path
  component, unless only dots precede it there.
\<close>

definition splitext :: "string \<Rightarrow> string \<times> string" where
  "splitext p =
     (let sepIndex = rfind CHR ''/'' p;
          dotIndex = rfind CHR ''.'' p
      in if sepIndex < dotIndex \<and>
            filter (\<lambda>c. c \<noteq> CHR ''.'')
              (take (nat (dotIndex - (sepIndex + 1))) (drop (nat (sepIndex + 1)) p)) \<noteq> []
         then (take (nat dotIndex) p, drop (nat dotIndex) p)
         else (p, []))"

text \<open>\<^verbatim>\<open>os.path.join\<close> of two components.\<close>

definition path_join :: "string \<Rightarrow> string \<Rightarrow> string" where
  "path_join a b =
     (if take 1 b = ''/'' then b
      else if a = [] \<or> last a = CHR ''/'' then a @ b
      else a @ ''/'' @ b)"

text \<open>
  A Python dict keeps its keys in insertion order; storing under a key that is present
  replaces the value and leaves the key where it is.
\<close>

fun dict_set :: "('k \<times> 'v) list \<Rightarrow> 'k \<Rightarrow> 'v \<Rightarrow> ('k \<times> 'v) list" where
  "dict_set [] k v = [(k, v)]"
| "dict_set ((k', v') # kvs) k v =
     (if k' = k then (k, v) # kvs else (k', v') # dict_set kvs k v)"

text \<open>
  The loop of \<^verbatim>\<open>load_templates\<close> over the sorted names. Line 53 is not inside a
  \<^verbatim>\<open>try\<close>: an exception of \<^verbatim>\<open>cv2.imread\<close> ends the loop and the load.
\<close>

fun load_loop ::
  "env \<Rightarrow> bool \<Rightarrow> string \<Rightarrow> (string \<times> image) list \<Rightarrow> string list
     \<Rightarrow> py_error + (string \<times> image) list"
where
  "load_loop cv use_edges folder templates [] = Inr templates"
| "load_loop cv use_edges folder templates (fname # fnames) =
     (let name = fst (splitext fname);
          path = path_join folder fname
      in case imread_grayscale cv path of
           Inl err \<Rightarrow> Inl err
         | Inr None \<Rightarrow> load_loop cv use_edges folder templates fnames
         | Inr (Some img) \<Rightarrow>
             load_loop cv use_edges folder
               (dict_set templates name (if use_edges then Canny cv img 50 150 else img))
               fnames)"

definition load_templates ::
  "env \<Rightarrow> bool \<Rightarrow> string \<Rightarrow> py_error + (string \<times> image) list"
where
  "load_templates cv use_edges folder =
     (case listdir cv folder of
        None \<Rightarrow> Inl OSError
      | Some fnames \<Rightarrow> load_loop cv use_edges folder [] (sort fnames))"

text \<open>
  Lines 68 and 69 of \<^verbatim>\<open>match_symbol\<close>: the scale factor and the target size
  \<open>(new_w, new_h)\<close> handed to \<^verbatim>\<open>cv2.resize\<close>.
\<close>

definition new_size :: "image \<Rightarrow> image \<Rightarrow> py_error + nat \<times> nat" where
  "new_size frame_gray tmpl =
     (case py_truediv (rows frame_gray) (rows tmpl) of
        Inl err \<Rightarrow> Inl err
      | Inr sh \<Rightarrow>
          (case py_truediv (cols frame_gray) (cols tmpl) of
             Inl err \<Rightarrow> Inl err
           | Inr sw \<Rightarrow>
               let scale = py_min sh sw
               in Inr (py_int (fmul (float_of_int (cols tmpl)) scale),
                       py_int (fmul (float_of_int (rows tmpl)) scale))))"

text \<open>Lines 67 to 72: the template that is correlated, \<^verbatim>\<open>tmpl_resized\<close>.\<close>

definition tmpl_resized :: "env \<Rightarrow> image \<Rightarrow> image \<Rightarrow> py_error + image" where
  "tmpl_resized cv frame_gray tmpl =
     (if rows frame_gray < rows tmpl \<or> cols frame_gray < cols tmpl
      then (case new_size frame_gray tmpl of
              Inl err \<Rightarrow> Inl err
            | Inr dsize \<Rightarrow> cv_resize cv tmpl dsize)
      else Inr tmpl)"

text \<open>Lines 67 to 75: the score \<^verbatim>\<open>max_val\<close> of one template.\<close>

definition template_score :: "env \<Rightarrow> image \<Rightarrow> image \<Rightarrow> py_error + rat" where
  "template_score cv frame_gray tmpl =
     (case tmpl_resized cv frame_gray tmpl of
        Inl err \<Rightarrow> Inl err
      | Inr t \<Rightarrow> cv_match_max cv frame_gray t)"

text \<open>The loop of \<^verbatim>\<open>match_symbol\<close> over \<^verbatim>\<open>templates.items()\<close>, carrying the running best.\<close>

fun match_loop ::
  "env \<Rightarrow> image \<Rightarrow> (string \<times> image) list \<Rightarrow> string option \<times> rat
     \<Rightarrow> py_error + string option \<times> rat"
where
  "match_loop cv frame_gray [] best = Inr best"
| "match_loop cv frame_gray ((name, tmpl) # rest) (best_name, best_score) =
     (case template_score cv frame_gray tmpl of
        Inl err \<Rightarrow> Inl err
      | Inr max_val \<Rightarrow>
          if best_score < max_val
          then match_loop cv frame_gray rest (Some name, max_val)
          else match_loop cv frame_gray rest (best_name, best_score))"

definition match_symbol ::
  "env \<Rightarrow> image \<Rightarrow> (string \<times> image) list \<Rightarrow> py_error + string option \<times> rat"
where
  "match_symbol cv frame_gray templates =
     (case match_loop cv frame_gray templates (None, - 1) of
        Inl err \<Rightarrow> Inl err
      | Inr (best_name, best_score) \<Rightarrow>
          if THRESHOLD \<le> best_score then Inr (best_name, best_score)
          else Inr (None, best_score))"

section \<open>The decision of one cycle\<close>

text \<open>
  The part of the window that a cycle reads and writes. \<open>key_presses\<close> is the log of
  the calls of \<^verbatim>\<open>pyautogui.press\<close>, oldest first; an exception of a call is caught
  by the program and changes nothing else.
\<close>

record main_window =
  send_keys_cb :: bool
  self_templates :: "(string \<times> image) list"
  last_text_label :: string
  last_cmd_label :: string
  key_presses :: "string list"

text \<open>\<^verbatim>\<open>dict.get(key, default)\<close>.\<close>

definition dict_get :: "('k \<rightharpoonup> 'v) \<Rightarrow> 'k \<Rightarrow> 'v \<Rightarrow> 'v" where
  "dict_get m k d = (case m k of None \<Rightarrow> d | Some v \<Rightarrow> v)"

text \<open>The \<^verbatim>\<open>else\<close> branch of \<^verbatim>\<open>if symbol\<close>: nothing was recognised.\<close>

definition show_no_match :: "main_window \<Rightarrow> main_window" where
  "show_no_match self =
     self\<lparr>last_text_label := ''Last detected symbol: (no match)'',
          last_cmd_label := ''Mapped command: (none)''\<rparr>"

text \<open>The \<^verbatim>\<open>then\<close> branch: show the symbol, resolve the command, press its key.\<close>

definition show_symbol :: "env \<Rightarrow> main_window \<Rightarrow> string \<Rightarrow> rat \<Rightarrow> main_window" where
  "show_symbol cv self symbol score =
     (let self = self\<lparr>last_text_label :=
                   ''Last detected symbol: '' @ symbol @ '' (score='' @ format_2f cv score @ '')''\<rparr>;
          cmd = dict_get COMMAND_MAP symbol ''(none)'';
          self = self\<lparr>last_cmd_label := ''Mapped command: '' @ cmd\<rparr>
      in if send_keys_cb self
         then (case KEY_SEND_MAP cmd of
                 None \<Rightarrow> self
               | Some key \<Rightarrow> self\<lparr>key_presses := key_presses self @ [key]\<rparr>)
         else self)"

text \<open>
  Lines 222 to 237 of \<^verbatim>\<open>MainWindow.capture_and_match\<close>, from the captured BGR frame
  to the labels and the key press. \<^verbatim>\<open>if symbol\<close> is Python's truth test: \<^verbatim>\<open>None\<close>
  and the empty string both take the \<^verbatim>\<open>else\<close> branch.
\<close>

definition capture_and_match :: "env \<Rightarrow> main_window \<Rightarrow> image \<Rightarrow> py_error + main_window" where
  "capture_and_match cv self frame =
     (let gray = preprocess cv USE_EDGES frame
      in case match_symbol cv gray (self_templates self) of
           Inl err \<Rightarrow> Inl err
         | Inr (symbol, score) \<Rightarrow>
             (case symbol of
                None \<Rightarrow> Inr (show_no_match self)
              | Some s \<Rightarrow>
                  if s = [] then Inr (show_no_match self)
                  else Inr (show_symbol cv self s score)))"

text \<open>
  Line 240, the size of the preview: \<^verbatim>\<open>(480, max(1, int(480 * rows / cols)))\<close>.
  Here the program keeps the computed height from being zero.
\<close>

definition preview_size :: "image \<Rightarrow> py_error + nat \<times> nat" where
  "preview_size gray =
     (case py_truediv (480 * rows gray) (cols gray) of
        Inl err \<Rightarrow> Inl err
      | Inr q \<Rightarrow> Inr (480, max 1 (py_int q)))"

section \<open>Notions used to state the properties\<close>

text \<open>
  \<open>scored cv frame templates ss\<close>: every template of the list gets a score, and \<open>ss\<close>
  lists these scores in the order of the templates.
\<close>

definition scored :: "env \<Rightarrow> image \<Rightarrow> (string \<times> image) list \<Rightarrow> rat list \<Rightarrow> bool" where
  "scored cv frame_gray templates ss =
     (map (\<lambda>nt. template_score cv frame_gray (snd nt)) templates = map Inr ss)"

text \<open>Half a unit in the last place, relative to the value: the rounding error of a double.\<close>

definition ulp_half :: rat where
  "ulp_half = 1 / 2 ^ 53"

text \<open>\<open>decodes\<close>: \<^verbatim>\<open>cv2.imread\<close> returns an image for the file.\<close>

definition decodes :: "env \<Rightarrow> string \<Rightarrow> string \<Rightarrow> bool" where
  "decodes cv folder fname =
     (case imread_grayscale cv (path_join folder fname) of
        Inl err \<Rightarrow> False
      | Inr None \<Rightarrow> False
      | Inr (Some img) \<Rightarrow> True)"

text \<open>\<open>imread_returns\<close>: \<^verbatim>\<open>cv2.imread\<close> returns, an image or \<^verbatim>\<open>None\<close>, and does not raise.\<close>

definition imread_returns :: "env \<Rightarrow> string \<Rightarrow> string \<Rightarrow> bool" where
  "imread_returns cv folder fname =
     (case imread_grayscale cv (path_join folder fname) of
        Inl err \<Rightarrow> False
      | Inr r \<Rightarrow> True)"

text \<open>The files of a directory listing that \<^verbatim>\<open>cv2.imread\<close> decodes, in sorted order.\<close>

definition decodable_sorted :: "env \<Rightarrow> string \<Rightarrow> string list \<Rightarrow> string list" where
  "decodable_sorted cv folder fnames = filter (decodes cv folder) (sort fnames)"

definition base_name :: "string \<Rightarrow> string" where
  "base_name fname = fst (splitext fname)"

text \<open>The last decodable file, in sorted order, whose base name is \<open>name\<close>.\<close>

definition last_with_base :: "env \<Rightarrow> string \<Rightarrow> string list \<Rightarrow> string \<Rightarrow> string option" where
  "last_with_base cv folder fnames name =
     find (\<lambda>fname. base_name fname = name) (rev (decodable_sorted cv folder fnames))"

text \<open>
  \<open>from_file cv use_edges folder nt fname\<close>: the entry \<open>nt\<close> of the store is what
  \<^verbatim>\<open>load_templates\<close> makes of the file \<open>fname\<close>.
\<close>

definition from_file :: "env \<Rightarrow> bool \<Rightarrow> string \<Rightarrow> string \<times> image \<Rightarrow> string \<Rightarrow> bool" where
  "from_file cv use_edges folder nt fname =
     (case imread_grayscale cv (path_join folder fname) of
        Inl err \<Rightarrow> False
      | Inr None \<Rightarrow> False
      | Inr (Some raw) \<Rightarrow>
          fst nt = base_name fname
          \<and> snd nt = (if use_edges then Canny cv raw 50 150 else raw))"

section \<open>Example data\<close>

definition gray_image :: "nat \<Rightarrow> nat \<Rightarrow> nat list \<Rightarrow> image" where
  "gray_image h w px = \<lparr>rows = h, cols = w, channels = None, pixels = px\<rparr>"

text \<open>
  A small stand-in for the collaborators: the edge detector thresholds each pixel, the
  score of a template is read off its first pixel (\<open>0\<close> gives \<open>-1\<close>, \<open>200\<close> gives \<open>1\<close>),
  and the file system holds three directories. \<^verbatim>\<open>templates\<close> has five images and one
  file that is no image; \<^verbatim>\<open>mixed\<close> has five images, two of them with the same base
  name, and one file that is no image; \<^verbatim>\<open>oversized\<close> has one image and one file on
  which the decoder raises.
\<close>

definition example_files :: "(string \<times> image) list" where
  "example_files =
     [(''templates/A.png'', gray_image 2 2 [10, 200, 200, 10]),
      (''templates/B.png'', gray_image 2 2 [20, 200, 200, 20]),
      (''templates/C.png'', gray_image 2 2 [30, 200, 200, 30]),
      (''templates/D.png'', gray_image 2 2 [40, 200, 200, 40]),
      (''templates/E.png'', gray_image 2 2 [50, 200, 200, 50]),
      (''mixed/A.jpg'', gray_image 2 2 [10, 200, 200, 10]),
      (''mixed/A.png'', gray_image 2 2 [60, 200, 200, 60]),
      (''mixed/B.png'', gray_image 2 2 [20, 200, 200, 20]),
      (''mixed/C.png'', gray_image 2 2 [30, 200, 200, 30]),
      (''mixed/D.png'', gray_image 2 2 [40, 200, 200, 40]),
      (''oversized/A.png'', gray_image 2 2 [10, 200, 200, 10])]"

definition example_cv :: env where
  "example_cv =
     \<lparr>cvtColor_BGR2GRAY =
        (\<lambda>img. img\<lparr>channels := None, pixels := take (rows img * cols img) (pixels img)\<rparr>),
      equalizeHist = (\<lambda>img. img),
      Canny = (\<lambda>img lo hi. img\<lparr>pixels := map (\<lambda>p. if p < hi then 0 else 255) (pixels img)\<rparr>),
      resize_area = (\<lambda>img w h. replicate (w * h) 0),
      ccoeff_normed_max =
        (\<lambda>frame tmpl. case pixels tmpl of [] \<Rightarrow> - 1 | p # _ \<Rightarrow> (of_nat p - 100) / 100),
      listdir =
        (\<lambda>d. if d = ''templates''
              then Some [''B.png'', ''notes.txt'', ''A.png'', ''E.png'', ''D.png'', ''C.png'']
              else if d = ''mixed''
              then Some [''A.png'', ''A.jpg'', ''D.png'', ''notes.txt'', ''C.png'', ''B.png'']
              else if d = ''oversized''
              then Some [''huge.png'', ''A.png'']
              else None),
      imread_grayscale =
        (\<lambda>path. if path = ''oversized/huge.png'' then Inl CvError
                 else Inr (map_of example_files path)),
      format_2f = (\<lambda>score. ''0.91'')\<rparr>"

definition example_frame :: image where
  "example_frame = \<lparr>rows = 8, cols = 8, channels = Some 3, pixels = replicate 192 0\<rparr>"

definition example_gray :: image where
  "example_gray = gray_image 8 8 (replicate 64 0)"

text \<open>A one-pixel template; its score against any frame is decided by the pixel.\<close>

definition pixel_template :: "nat \<Rightarrow> image" where
  "pixel_template p = gray_image 1 1 [p]"

definition example_window :: "(string \<times> image) list \<Rightarrow> main_window" where
  "example_window ts =
     \<lparr>send_keys_cb = True, self_templates = ts,
      last_text_label = ''Last detected symbol: '', last_cmd_label = ''Mapped command: '',
      key_presses = []\<rparr>"

section \<open>Rounding: the error of one operation\<close>

lemma bit_length_bounds:
  "0 < n \<Longrightarrow> 2 ^ (bit_length n - 1) \<le> n \<and> n < 2 ^ bit_length n"
proof (induction n rule: bit_length.induct)
  case (1 n)
  have npos: "n \<noteq> 0" using "1.prems" by simp
  have bl: "bit_length n = Suc (bit_length (n div 2))"
    using npos by (subst bit_length.simps) simp
  show ?case
  proof (cases "n div 2 = 0")
    case True
    have n1: "n = 1" using True npos by presburger
    have "bit_length (n div 2) = 0" using True by (subst bit_length.simps) simp
    then show ?thesis using bl n1 by simp
  next
    case False
    then have pos: "0 < n div 2" by simp
    have ih: "2 ^ (bit_length (n div 2) - 1) \<le> n div 2 \<and> n div 2 < 2 ^ bit_length (n div 2)"
      using "1.IH"[OF npos pos] .
    have "bit_length (n div 2) \<noteq> 0"
      using False by (subst bit_length.simps) simp
    then obtain k where k: "bit_length (n div 2) = Suc k"
      by (cases "bit_length (n div 2)") simp_all
    have lo: "(2::nat) ^ k \<le> n div 2" using ih k by simp
    have hi: "n div 2 < 2 * (2::nat) ^ k" using ih k by simp
    have e1: "(2::nat) ^ (bit_length n - 1) = 2 * 2 ^ k" using bl k by simp
    have e2: "(2::nat) ^ bit_length n = 2 * (2 * 2 ^ k)" using bl k by simp
    have "2 * 2 ^ k \<le> n" using lo by linarith
    moreover have "n < 2 * (2 * 2 ^ k)" using hi by linarith
    ultimately show ?thesis unfolding e1 e2 by blast
  qed
qed


lemma bit_length_pos: "0 < n \<Longrightarrow> 0 < bit_length n"
  by (subst bit_length.simps) simp

lemma powi_diff_nat: "(2::rat) powi (int a - int b) = 2 ^ a / 2 ^ b"
  by (simp add: power_int_diff)

lemma powi_diff_nat_pred:
  assumes "0 < a"
  shows "(2::rat) powi (int a - int b - 1) = 2 ^ (a - 1) / 2 ^ b"
proof -
  from assms obtain k where "a = Suc k" by (cases a) simp_all
  then show ?thesis by (simp add: power_int_diff)
qed

lemma ilog2_lower:
  assumes "0 < p" "0 < q"
  shows "2 powi (ilog2 p q) \<le> (of_nat p / of_nat q :: rat)"
proof -
  let ?bp = "bit_length p" and ?bq = "bit_length q"
  have qpos: "(0::rat) < of_nat q" using assms by simp
  show ?thesis
  proof (cases "q * 2 ^ ?bp \<le> p * 2 ^ ?bq")
    case True
    then have il: "ilog2 p q = int ?bp - int ?bq" by (simp add: ilog2_def)
    have "(of_nat (q * 2 ^ ?bp) :: rat) \<le> of_nat (p * 2 ^ ?bq)"
      using True by (simp only: of_nat_le_iff)
    then have "(of_nat q :: rat) * 2 ^ ?bp \<le> of_nat p * 2 ^ ?bq" by simp
    then have "(2::rat) ^ ?bp / 2 ^ ?bq \<le> of_nat p / of_nat q"
      using qpos by (simp add: field_simps)
    then show ?thesis unfolding il powi_diff_nat .
  next
    case False
    then have il: "ilog2 p q = int ?bp - int ?bq - 1" by (simp add: ilog2_def)
    have a: "2 ^ (?bp - 1) \<le> p" using bit_length_bounds[OF assms(1)] by simp
    have b: "q < 2 ^ ?bq" using bit_length_bounds[OF assms(2)] by simp
    have bp: "0 < ?bp" using assms bit_length_pos by simp
    have "(of_nat (2 ^ (?bp - 1)) :: rat) \<le> of_nat p"
      using a by (simp only: of_nat_le_iff)
    then have a': "(2::rat) ^ (?bp - 1) \<le> of_nat p" by simp
    have "(of_nat q :: rat) < of_nat (2 ^ ?bq)"
      using b by (simp only: of_nat_less_iff)
    then have b': "(of_nat q :: rat) \<le> 2 ^ ?bq" by simp
    have "(2::rat) ^ (?bp - 1) * of_nat q \<le> of_nat p * 2 ^ ?bq"
      using a' b' by (intro mult_mono) simp_all
    then have "(2::rat) ^ (?bp - 1) / 2 ^ ?bq \<le> of_nat p / of_nat q"
      using qpos by (simp add: field_simps)
    then show ?thesis unfolding il powi_diff_nat_pred[OF bp] .
  qed
qed

lemma round_half_even_upper:
  assumes "0 < d"
  shows "(of_nat (round_half_even n d) :: rat) \<le> of_nat n / of_nat d + 1 / 2"
proof -
  let ?k = "n div d" and ?r = "n mod d"
  have dpos: "(0::rat) < of_nat d" using assms by simp
  have n: "(of_nat n :: rat) = of_nat ?k * of_nat d + of_nat ?r"
    by (metis div_mult_mod_eq of_nat_add of_nat_mult)
  have q: "(of_nat n / of_nat d :: rat) = of_nat ?k + of_nat ?r / of_nat d"
    unfolding n using dpos by (simp add: field_simps)
  have r0: "(0::rat) \<le> of_nat ?r / of_nat d" by simp
  show ?thesis
  proof (cases "2 * ?r < d")
    case True
    then have "round_half_even n d = ?k" by (simp add: round_half_even_def Let_def)
    then show ?thesis using q r0 by simp
  next
    case False
    then have le: "round_half_even n d \<le> ?k + 1"
      by (simp add: round_half_even_def Let_def)
    have "(of_nat d :: rat) \<le> of_nat (2 * ?r)"
      using False by (simp only: of_nat_le_iff not_less)
    then have "(of_nat d :: rat) \<le> 2 * of_nat ?r" by simp
    then have half: "(1 / 2 :: rat) \<le> of_nat ?r / of_nat d"
      using dpos by (simp add: field_simps)
    have "(of_nat (round_half_even n d) :: rat) \<le> of_nat (?k + 1)"
      using le by (simp only: of_nat_le_iff)
    then have "(of_nat (round_half_even n d) :: rat) \<le> of_nat ?k + 1" by simp
    then show ?thesis using q half by linarith
  qed
qed


lemma scaled_quot:
  "(of_nat (p * 2 ^ nat (- e)) / of_nat (q * 2 ^ nat e) :: rat)
     = of_nat p / of_nat q * 2 powi (- e)"
proof (cases "0 \<le> e")
  case True
  have pe: "(2::rat) powi (- e) = inverse (2 ^ nat e)"
    using True by (simp add: power_int_minus power_int_def power_one_over field_simps)
  have n0: "nat (- e) = 0" using True by simp
  show ?thesis unfolding pe n0 by (simp add: divide_inverse)
next
  case False
  have pe: "(2::rat) powi (- e) = 2 ^ nat (- e)"
    using False by (simp add: power_int_def)
  have n0: "nat e = 0" using False by simp
  show ?thesis unfolding pe n0 by (simp add: divide_inverse)
qed

lemma round_q_upper:
  assumes "0 < q"
  shows "dval (round_q p q) \<le> of_nat p / of_nat q * (1 + ulp_half)"
proof (cases "p = 0")
  case True
  then show ?thesis by (simp add: round_q_def dval_def)
next
  case False
  then have ppos: "0 < p" by simp
  define e where "e = ilog2 p q - 52"
  define N where "N = p * 2 ^ nat (- e)"
  define D where "D = q * 2 ^ nat e"
  define y :: rat where "y = of_nat N / of_nat D"
  define x :: rat where "x = of_nat p / of_nat q"
  have Dpos: "0 < D" using assms by (simp add: D_def)
  have rq: "round_q p q = (round_half_even N D, e)"
    using False by (simp add: round_q_def Let_def e_def N_def D_def)
  have yx: "y = x * 2 powi (- e)"
    unfolding y_def x_def N_def D_def by (rule scaled_quot)
  have xlow: "2 powi (e + 52) \<le> x"
    using ilog2_lower[OF ppos assms] by (simp add: e_def x_def)
  have pow_pos: "(0::rat) < 2 powi (- e)" by simp
  have "2 powi (e + 52) * 2 powi (- e) \<le> x * (2::rat) powi (- e)"
    using xlow pow_pos by (simp only: mult_le_cancel_right_pos)
  moreover have "(2::rat) powi (e + 52) * 2 powi (- e) = 2 powi 52"
    by (simp add: power_int_add [symmetric])
  ultimately have ylow: "2 powi 52 \<le> y" using yx by simp
  then have ylow': "(2::rat) ^ 52 \<le> y" by (simp add: power_int_def)
  have m: "(of_nat (round_half_even N D) :: rat) \<le> y + 1 / 2"
    unfolding y_def by (rule round_half_even_upper[OF Dpos])
  have "(1 / 2 :: rat) \<le> y * ulp_half"
    using ylow' by (simp add: ulp_half_def)
  then have m': "(of_nat (round_half_even N D) :: rat) \<le> y * (1 + ulp_half)"
    using m by (simp add: algebra_simps)
  have epos: "(0::rat) < 2 powi e" by simp
  have "dval (round_q p q) = of_nat (round_half_even N D) * 2 powi e"
    by (simp add: rq dval_def)
  also have "\<dots> \<le> y * (1 + ulp_half) * 2 powi e"
    using m' epos by (simp only: mult_le_cancel_right_pos)
  also have "\<dots> = x * (1 + ulp_half) * (2 powi (- e) * 2 powi e)"
    by (simp add: yx)
  also have "(2::rat) powi (- e) * 2 powi e = 1"
    by (simp add: power_int_add [symmetric])
  finally show ?thesis by (simp add: x_def)
qed


lemma float_of_int_upper: "dval (float_of_int n) \<le> of_nat n * (1 + ulp_half)"
  using round_q_upper[of 1 n] by (simp add: float_of_int_def)

lemma ulp_half_pos: "0 < ulp_half"
  by (simp add: ulp_half_def)

lemma dval_nonneg: "0 \<le> dval d"
  by (simp add: dval_def)

lemma fmul_upper: "dval (fmul a b) \<le> dval a * dval b * (1 + ulp_half)"
proof -
  define e where "e = snd a + snd b"
  define p where "p = fst a * fst b"
  have f: "fmul a b = round_q (p * 2 ^ nat e) (2 ^ nat (- e))"
    by (simp add: fmul_def Let_def e_def p_def)
  have "(of_nat (p * 2 ^ nat (- (- e))) / of_nat (1 * 2 ^ nat (- e)) :: rat)
          = of_nat p / of_nat 1 * 2 powi (- (- e))"
    by (rule scaled_quot)
  then have q: "(of_nat (p * 2 ^ nat e) / of_nat (2 ^ nat (- e)) :: rat) = of_nat p * 2 powi e"
    by simp
  have "dval a * dval b = of_nat p * (2 powi snd a * 2 powi snd b)"
    by (simp add: dval_def p_def)
  also have "(2::rat) powi snd a * 2 powi snd b = 2 powi e"
    by (simp add: e_def power_int_add)
  finally have v: "dval a * dval b = of_nat p * 2 powi e" .
  have "dval (fmul a b) \<le> of_nat (p * 2 ^ nat e) / of_nat (2 ^ nat (- e)) * (1 + ulp_half)"
    unfolding f by (rule round_q_upper) simp
  then show ?thesis unfolding q v .
qed

lemma flt_iff: "flt a b \<longleftrightarrow> dval a < dval b"
proof -
  obtain m1 e1 where a: "a = (m1, e1)" by (cases a)
  obtain m2 e2 where b: "b = (m2, e2)" by (cases b)
  have pos: "(0::rat) < 2 powi e" for e by simp
  show ?thesis
  proof (cases "e1 \<le> e2")
    case True
    define k where "k = nat (e2 - e1)"
    have e2: "e2 = e1 + int k" using True by (simp add: k_def)
    have p2: "(2::rat) powi e2 = 2 powi e1 * 2 ^ k"
      unfolding e2 by (simp add: power_int_add)
    have "flt a b \<longleftrightarrow> int m1 < int m2 * 2 ^ k"
      using True by (simp add: flt_def a b k_def)
    also have "\<dots> \<longleftrightarrow> (of_int (int m1) :: rat) < of_int (int m2 * 2 ^ k)"
      by (simp only: of_int_less_iff)
    also have "\<dots> \<longleftrightarrow> (of_nat m1 :: rat) < of_nat m2 * 2 ^ k" by simp
    also have "\<dots> \<longleftrightarrow> (of_nat m1 :: rat) * 2 powi e1 < of_nat m2 * 2 ^ k * 2 powi e1"
      using pos[of e1] by (simp only: mult_less_cancel_right_pos)
    also have "\<dots> \<longleftrightarrow> dval a < dval b"
      by (simp add: dval_def a b p2 mult_ac)
    finally show ?thesis .
  next
    case False
    define k where "k = nat (e1 - e2)"
    have e1: "e1 = e2 + int k" using False by (simp add: k_def)
    have p1: "(2::rat) powi e1 = 2 powi e2 * 2 ^ k"
      unfolding e1 by (simp add: power_int_add)
    have "flt a b \<longleftrightarrow> int m1 * 2 ^ k < int m2"
      using False by (simp add: flt_def a b k_def)
    also have "\<dots> \<longleftrightarrow> (of_int (int m1 * 2 ^ k) :: rat) < of_int (int m2)"
      by (simp only: of_int_less_iff)
    also have "\<dots> \<longleftrightarrow> (of_nat m1 :: rat) * 2 ^ k < of_nat m2" by simp
    also have "\<dots> \<longleftrightarrow> (of_nat m1 :: rat) * 2 ^ k * 2 powi e2 < of_nat m2 * 2 powi e2"
      using pos[of e2] by (simp only: mult_less_cancel_right_pos)
    also have "\<dots> \<longleftrightarrow> dval a < dval b"
      by (simp add: dval_def a b p1 mult_ac)
    finally show ?thesis .
  qed
qed

lemma py_min_le: "dval (py_min a b) \<le> dval a" "dval (py_min a b) \<le> dval b"
  by (simp_all add: py_min_def flt_iff)

lemma py_int_le: "(of_nat (py_int d) :: rat) \<le> dval d"
proof (cases "0 \<le> snd d")
  case True
  then show ?thesis by (simp add: py_int_def dval_def power_int_def)
next
  case False
  define k where "k = nat (- snd d)"
  have pe: "(2::rat) powi snd d = inverse (2 ^ k)"
    using False by (simp add: power_int_def k_def power_one_over field_simps)
  have pi: "py_int d = fst d div 2 ^ k"
    using False by (simp add: py_int_def k_def)
  have "fst d div 2 ^ k * 2 ^ k \<le> fst d" by simp
  then have "(of_nat (fst d div 2 ^ k * 2 ^ k) :: rat) \<le> of_nat (fst d)"
    by (simp only: of_nat_le_iff)
  then have "(of_nat (fst d div 2 ^ k) :: rat) * 2 ^ k \<le> of_nat (fst d)" by simp
  then have "(of_nat (fst d div 2 ^ k) :: rat) \<le> of_nat (fst d) / 2 ^ k"
    by (simp add: field_simps)
  then show ?thesis unfolding pi dval_def pe by (simp add: divide_inverse)
qed


lemma cube_slack:
  assumes "fw < (2::nat) ^ 31"
  shows "(of_nat fw :: rat) * ((1 + ulp_half) * (1 + ulp_half) * (1 + ulp_half)) < of_nat fw + 1"
proof -
  have "(of_nat fw :: rat) < of_nat (2 ^ 31)"
    using assms by (simp only: of_nat_less_iff)
  then have b: "(of_nat fw :: rat) < 2 ^ 31" by simp
  have c: "(1 + ulp_half) * (1 + ulp_half) * (1 + ulp_half) \<le> 1 + 1 / 2 ^ 51"
    by (simp add: ulp_half_def)
  have "(of_nat fw :: rat) * ((1 + ulp_half) * (1 + ulp_half) * (1 + ulp_half))
          \<le> of_nat fw * (1 + 1 / 2 ^ 51)"
    using c by (intro mult_left_mono) simp_all
  also have "\<dots> = of_nat fw + of_nat fw / 2 ^ 51" by (simp add: algebra_simps)
  also have "\<dots> < of_nat fw + 1" using b by simp
  finally show ?thesis .
qed

lemma scaled_dim_le:
  assumes tw: "0 < tw" and fw: "fw < 2 ^ 31"
    and sc: "dval scale \<le> dval (round_q fw tw)"
  shows "py_int (fmul (float_of_int tw) scale) \<le> fw"
proof -
  let ?u = "1 + ulp_half"
  have u0: "0 \<le> ?u" using ulp_half_pos by simp
  have twr: "(0::rat) < of_nat tw" using tw by simp
  have s: "dval scale \<le> of_nat fw / of_nat tw * ?u"
    using sc round_q_upper[OF tw, of fw] by linarith
  have a: "dval (float_of_int tw) \<le> of_nat tw * ?u" by (rule float_of_int_upper)
  have "dval (float_of_int tw) * dval scale \<le> (of_nat tw * ?u) * (of_nat fw / of_nat tw * ?u)"
    using a s by (intro mult_mono) (simp_all add: dval_nonneg u0)
  also have "\<dots> = of_nat fw * (?u * ?u)" using twr by simp
  finally have p: "dval (float_of_int tw) * dval scale \<le> of_nat fw * (?u * ?u)" .
  have "dval (fmul (float_of_int tw) scale) \<le> dval (float_of_int tw) * dval scale * ?u"
    by (rule fmul_upper)
  also have "\<dots> \<le> of_nat fw * (?u * ?u) * ?u"
    using p u0 by (intro mult_right_mono)
  also have "\<dots> = of_nat fw * (?u * ?u * ?u)" by (simp add: mult.assoc)
  also have "\<dots> < of_nat fw + 1" by (rule cube_slack[OF fw])
  finally have "dval (fmul (float_of_int tw) scale) < of_nat fw + 1" .
  then have "(of_nat (py_int (fmul (float_of_int tw) scale)) :: rat) < of_nat (fw + 1)"
    using py_int_le[of "fmul (float_of_int tw) scale"] by simp
  then have "py_int (fmul (float_of_int tw) scale) < fw + 1"
    by (simp only: of_nat_less_iff)
  then show ?thesis by simp
qed

subsection \<open>The rounding is correct rounding\<close>

text \<open>
  The result of \<open>round_q\<close> on a positive quotient has a mantissa of 53 bits and lies
  within half a unit in the last place of the exact quotient: it is the double that
  IEEE division returns.
\<close>

lemma ilog2_upper:
  assumes "0 < p" "0 < q"
  shows "(of_nat p / of_nat q :: rat) < 2 powi (ilog2 p q + 1)"
proof -
  let ?bp = "bit_length p" and ?bq = "bit_length q"
  have qpos: "(0::rat) < of_nat q" using assms by simp
  show ?thesis
  proof (cases "q * 2 ^ ?bp \<le> p * 2 ^ ?bq")
    case True
    then have il: "ilog2 p q + 1 = int (Suc ?bp) - int ?bq" by (simp add: ilog2_def)
    have a: "p < 2 ^ ?bp" using bit_length_bounds[OF assms(1)] by simp
    have b: "2 ^ (?bq - 1) \<le> q" using bit_length_bounds[OF assms(2)] by simp
    have bq: "0 < ?bq" using assms bit_length_pos by simp
    then obtain k where k: "?bq = Suc k" by (cases ?bq) simp_all
    have "(of_nat p :: rat) < of_nat (2 ^ ?bp)"
      using a by (simp only: of_nat_less_iff)
    then have a': "(of_nat p :: rat) < 2 ^ ?bp" by simp
    have "(of_nat (2 ^ k) :: rat) \<le> of_nat q"
      using b k by (simp only: of_nat_le_iff) simp
    then have b': "(2::rat) ^ k \<le> of_nat q" by simp
    have "(of_nat p :: rat) * 2 ^ k < 2 ^ ?bp * of_nat q"
      using a' b' qpos by (intro mult_less_le_imp_less) simp_all
    then have "(of_nat p :: rat) * 2 ^ ?bq < 2 ^ Suc ?bp * of_nat q"
      unfolding k by simp
    then have "(of_nat p / of_nat q :: rat) < 2 ^ Suc ?bp / 2 ^ ?bq"
      using qpos by (simp add: field_simps)
    then show ?thesis unfolding il powi_diff_nat .
  next
    case False
    then have il: "ilog2 p q + 1 = int ?bp - int ?bq" by (simp add: ilog2_def)
    have "p * 2 ^ ?bq < q * 2 ^ ?bp" using False by simp
    then have "(of_nat (p * 2 ^ ?bq) :: rat) < of_nat (q * 2 ^ ?bp)"
      by (simp only: of_nat_less_iff)
    then have "(of_nat p :: rat) * 2 ^ ?bq < of_nat q * 2 ^ ?bp" by simp
    then have "(of_nat p / of_nat q :: rat) < 2 ^ ?bp / 2 ^ ?bq"
      using qpos by (simp add: field_simps)
    then show ?thesis unfolding il powi_diff_nat .
  qed
qed

lemma round_half_even_lower:
  assumes "0 < d"
  shows "of_nat n / of_nat d - 1 / 2 \<le> (of_nat (round_half_even n d) :: rat)"
proof -
  let ?k = "n div d" and ?r = "n mod d"
  have dpos: "(0::rat) < of_nat d" using assms by simp
  have n: "(of_nat n :: rat) = of_nat ?k * of_nat d + of_nat ?r"
    by (metis div_mult_mod_eq of_nat_add of_nat_mult)
  have q: "(of_nat n / of_nat d :: rat) = of_nat ?k + of_nat ?r / of_nat d"
    unfolding n using dpos by (simp add: field_simps)
  have "?r < d" using assms by simp
  then have "(of_nat ?r :: rat) < of_nat d" by (simp only: of_nat_less_iff)
  then have r1: "(of_nat ?r / of_nat d :: rat) < 1" using dpos by simp
  show ?thesis
  proof (cases "2 * ?r < d")
    case True
    then have e: "round_half_even n d = ?k" by (simp add: round_half_even_def Let_def)
    have "(of_nat (2 * ?r) :: rat) < of_nat d" using True by (simp only: of_nat_less_iff)
    then have "(2 * of_nat ?r :: rat) < of_nat d" by simp
    then have "(of_nat ?r / of_nat d :: rat) < 1 / 2" using dpos by (simp add: field_simps)
    then show ?thesis unfolding e q by linarith
  next
    case False
    then have ge: "?k \<le> round_half_even n d" "round_half_even n d \<ge> ?k + 1 \<or> 2 * ?r = d"
      by (auto simp: round_half_even_def Let_def)
    show ?thesis
    proof (cases "2 * ?r = d")
      case True
      then have "(of_nat (2 * ?r) :: rat) = of_nat d" by simp
      then have "(of_nat ?r / of_nat d :: rat) = 1 / 2" using dpos by (simp add: field_simps)
      moreover have "(of_nat ?k :: rat) \<le> of_nat (round_half_even n d)"
        using ge(1) by (simp only: of_nat_le_iff)
      ultimately show ?thesis unfolding q by linarith
    next
      case False
      with ge(2) have "?k + 1 \<le> round_half_even n d" by simp
      then have "(of_nat (?k + 1) :: rat) \<le> of_nat (round_half_even n d)"
        by (simp only: of_nat_le_iff)
      then have "(of_nat ?k + 1 :: rat) \<le> of_nat (round_half_even n d)" by simp
      then show ?thesis unfolding q using r1 by linarith
    qed
  qed
qed

lemma round_half_even_between:
  assumes "0 < d" and "a * d \<le> n" and "n \<le> b * d"
  shows "a \<le> round_half_even n d \<and> round_half_even n d \<le> b"
proof
  have "a \<le> n div d" using assms(1,2) by (simp add: less_eq_div_iff_mult_less_eq)
  moreover have "n div d \<le> round_half_even n d"
    by (simp add: round_half_even_def Let_def)
  ultimately show "a \<le> round_half_even n d" by simp
  show "round_half_even n d \<le> b"
  proof (cases "n = b * d")
    case True
    then show ?thesis using assms(1) by (simp add: round_half_even_def Let_def)
  next
    case False
    then have "n < b * d" using assms(3) by simp
    then have "n div d < b" using assms(1) by (simp add: div_less_iff_less_mult)
    moreover have "round_half_even n d \<le> n div d + 1"
      by (simp add: round_half_even_def Let_def)
    ultimately show ?thesis by simp
  qed
qed


lemma round_q_correct:
  assumes "0 < p" "0 < q"
  shows "2 ^ 52 \<le> fst (round_q p q) \<and> fst (round_q p q) \<le> 2 ^ 53
       \<and> \<bar>dval (round_q p q) - of_nat p / of_nat q\<bar> \<le> 2 powi (snd (round_q p q)) / 2"
proof -
  define e where "e = ilog2 p q - 52"
  define N where "N = p * 2 ^ nat (- e)"
  define D where "D = q * 2 ^ nat e"
  define y :: rat where "y = of_nat N / of_nat D"
  define x :: rat where "x = of_nat p / of_nat q"
  have Dpos: "0 < D" using assms by (simp add: D_def)
  have Dr: "(0::rat) < of_nat D" using Dpos by simp
  have rq: "round_q p q = (round_half_even N D, e)"
    using assms by (simp add: round_q_def Let_def e_def N_def D_def)
  have yx: "y = x * 2 powi (- e)"
    unfolding y_def x_def N_def D_def by (rule scaled_quot)
  have pow_pos: "(0::rat) < 2 powi (- e)" by simp
  have xlow: "2 powi (e + 52) \<le> x"
    using ilog2_lower[OF assms] by (simp add: e_def x_def)
  have "e + 53 = ilog2 p q + 1" by (simp add: e_def)
  then have xhigh: "x < 2 powi (e + 53)"
    using ilog2_upper[OF assms] by (simp only: x_def)
  have "2 powi (e + 52) * 2 powi (- e) \<le> x * (2::rat) powi (- e)"
    using xlow pow_pos by (simp only: mult_le_cancel_right_pos)
  moreover have "(2::rat) powi (e + 52) * 2 powi (- e) = 2 powi 52"
    by (simp add: power_int_add [symmetric])
  ultimately have "2 powi 52 \<le> y" using yx by simp
  then have ylow: "(2::rat) ^ 52 \<le> y" by (simp add: power_int_def)
  have "x * (2::rat) powi (- e) < 2 powi (e + 53) * 2 powi (- e)"
    using xhigh pow_pos by (simp only: mult_less_cancel_right_pos)
  moreover have "(2::rat) powi (e + 53) * 2 powi (- e) = 2 powi 53"
    by (simp add: power_int_add [symmetric])
  ultimately have "y < 2 powi 53" using yx by simp
  then have yhigh: "y < (2::rat) ^ 53" by (simp add: power_int_def)
  have "(of_nat (2 ^ 52 * D) :: rat) \<le> of_nat N"
    using ylow Dr by (simp add: y_def field_simps)
  then have nl: "2 ^ 52 * D \<le> N" by (simp only: of_nat_le_iff)
  have "(of_nat N :: rat) < of_nat (2 ^ 53 * D)"
    using yhigh Dr by (simp add: y_def field_simps)
  then have "N < 2 ^ 53 * D" by (simp only: of_nat_less_iff)
  then have nh: "N \<le> 2 ^ 53 * D" by simp
  have m: "2 ^ 52 \<le> round_half_even N D \<and> round_half_even N D \<le> 2 ^ 53"
    by (rule round_half_even_between[OF Dpos nl nh])
  have up: "(of_nat (round_half_even N D) :: rat) \<le> y + 1 / 2"
    unfolding y_def by (rule round_half_even_upper[OF Dpos])
  have lo: "y - 1 / 2 \<le> (of_nat (round_half_even N D) :: rat)"
    unfolding y_def by (rule round_half_even_lower[OF Dpos])
  have near: "\<bar>of_nat (round_half_even N D) - y\<bar> \<le> (1 / 2 :: rat)"
    using up lo by linarith
  have epos: "(0::rat) < 2 powi e" by simp
  have one: "(2::rat) powi (- e) * 2 powi e = 1"
    by (simp add: power_int_add [symmetric])
  have "x = x * (2 powi (- e) * 2 powi e)" by (simp only: one mult_1_right)
  then have xy: "x = y * 2 powi e" by (simp add: yx mult.assoc)
  have "dval (round_q p q) - x = (of_nat (round_half_even N D) - y) * 2 powi e"
    by (simp add: rq dval_def xy algebra_simps)
  then have "\<bar>dval (round_q p q) - x\<bar> = \<bar>of_nat (round_half_even N D) - y\<bar> * 2 powi e"
    using epos by (simp add: abs_mult)
  also have "\<dots> \<le> 1 / 2 * 2 powi e"
    using near epos by (simp only: mult_le_cancel_right_pos)
  finally have "\<bar>dval (round_q p q) - x\<bar> \<le> 2 powi e / 2" by simp
  then show ?thesis using m by (simp add: rq x_def)
qed

lemma round_q_error:
  assumes "0 < p" "0 < q"
  shows "\<bar>dval (round_q p q) - of_nat p / of_nat q\<bar> \<le> of_nat p / of_nat q * ulp_half"
proof -
  define e where "e = snd (round_q p q)"
  have e: "e = ilog2 p q - 52"
    using assms by (simp add: e_def round_q_def Let_def)
  have "2 powi (e + 52) \<le> (of_nat p / of_nat q :: rat)"
    using ilog2_lower[OF assms] by (simp add: e)
  moreover have "(2::rat) powi (e + 52) = 2 powi e * 2 ^ 52"
    by (simp add: power_int_add)
  ultimately have "2 powi e * 2 ^ 52 \<le> (of_nat p / of_nat q :: rat)" by simp
  then have "2 powi e / 2 \<le> (of_nat p / of_nat q :: rat) * ulp_half"
    by (simp add: ulp_half_def field_simps)
  moreover have "\<bar>dval (round_q p q) - of_nat p / of_nat q\<bar> \<le> 2 powi e / 2"
    using round_q_correct[OF assms] by (simp add: e_def)
  ultimately show ?thesis by linarith
qed

lemma py_min_value: "dval (py_min a b) = min (dval a) (dval b)"
  by (simp add: py_min_def flt_iff min_def)

subsection \<open>Evaluation on numerals\<close>

lemma bit_length_0: "bit_length 0 = 0"
  by (subst bit_length.simps) simp
lemma bit_length_Suc_0: "bit_length (Suc 0) = Suc 0"
  by (subst bit_length.simps) (simp add: bit_length_0)
lemma bit_length_numeral: "bit_length (numeral k) = Suc (bit_length (numeral k div 2))"
  by (subst bit_length.simps) simp
lemmas bit_length_eval = bit_length_0 bit_length_Suc_0 bit_length_numeral

section \<open>The template that is correlated\<close>

lemma new_size_value:
  assumes "0 < rows t" "0 < cols t"
  shows "new_size f t =
           Inr (py_int (fmul (float_of_int (cols t))
                  (py_min (round_q (rows f) (rows t)) (round_q (cols f) (cols t)))),
                py_int (fmul (float_of_int (rows t))
                  (py_min (round_q (rows f) (rows t)) (round_q (cols f) (cols t)))))"
  using assms by (simp add: new_size_def py_truediv_def Let_def)

lemma new_size_within_frame:
  assumes "0 < rows t" "0 < cols t" "rows f < 2 ^ 31" "cols f < 2 ^ 31"
    and "new_size f t = Inr (w, h)"
  shows "w \<le> cols f \<and> h \<le> rows f"
proof -
  let ?scale = "py_min (round_q (rows f) (rows t)) (round_q (cols f) (cols t))"
  have w: "w = py_int (fmul (float_of_int (cols t)) ?scale)"
    and h: "h = py_int (fmul (float_of_int (rows t)) ?scale)"
    using assms(5) new_size_value[OF assms(1,2), of f] by simp_all
  have "w \<le> cols f"
    unfolding w by (rule scaled_dim_le[OF assms(2) assms(4)]) (rule py_min_le(2))
  moreover have "h \<le> rows f"
    unfolding h by (rule scaled_dim_le[OF assms(1) assms(3)]) (rule py_min_le(1))
  ultimately show ?thesis by simp
qed

lemma cv_resize_shape:
  "cv_resize cv img (w, h) = Inr r \<Longrightarrow> rows r = h \<and> cols r = w"
  by (auto simp: cv_resize_def split: if_splits)

text \<open>
  For a template and a frame with positive dimensions (below \<open>2 ^ 31\<close>, the range of an
  OpenCV size): a template that fits in both dimensions is taken as it is; for a template
  that exceeds the frame in a dimension, the size handed to \<^verbatim>\<open>cv2.resize\<close> is
  \<open>(int(w * scale), int(h * scale))\<close> with \<open>scale = min(frame_h / h, frame_w / w)\<close>, in
  double precision, and both numbers are at most the frame's. Whatever image the resize
  returns is no larger than the frame.
\<close>

lemma template_within_frame:
  assumes "0 < rows t" "0 < cols t" "0 < rows f" "0 < cols f"
    and "rows f < 2 ^ 31" "cols f < 2 ^ 31"
  shows "(rows t \<le> rows f \<and> cols t \<le> cols f \<longrightarrow> tmpl_resized cv f t = Inr t)
       \<and> (rows f < rows t \<or> cols f < cols t \<longrightarrow>
            (\<exists>w h. new_size f t = Inr (w, h)
               \<and> w = py_int (fmul (float_of_int (cols t))
                        (py_min (round_q (rows f) (rows t)) (round_q (cols f) (cols t))))
               \<and> h = py_int (fmul (float_of_int (rows t))
                        (py_min (round_q (rows f) (rows t)) (round_q (cols f) (cols t))))
               \<and> w \<le> cols f \<and> h \<le> rows f
               \<and> tmpl_resized cv f t = cv_resize cv t (w, h)))
       \<and> (\<forall>r. tmpl_resized cv f t = Inr r \<longrightarrow> rows r \<le> rows f \<and> cols r \<le> cols f)"
proof (intro conjI impI allI)
  assume "rows t \<le> rows f \<and> cols t \<le> cols f"
  then show "tmpl_resized cv f t = Inr t" by (simp add: tmpl_resized_def)
next
  assume big: "rows f < rows t \<or> cols f < cols t"
  let ?scale = "py_min (round_q (rows f) (rows t)) (round_q (cols f) (cols t))"
  let ?w = "py_int (fmul (float_of_int (cols t)) ?scale)"
  let ?h = "py_int (fmul (float_of_int (rows t)) ?scale)"
  have ns: "new_size f t = Inr (?w, ?h)" by (rule new_size_value[OF assms(1,2)])
  have le: "?w \<le> cols f \<and> ?h \<le> rows f"
    by (rule new_size_within_frame[OF assms(1,2,5,6) ns])
  have tr: "tmpl_resized cv f t = cv_resize cv t (?w, ?h)"
    using big by (simp add: tmpl_resized_def ns)
  show "\<exists>w h. new_size f t = Inr (w, h) \<and> w = ?w \<and> h = ?h
          \<and> w \<le> cols f \<and> h \<le> rows f \<and> tmpl_resized cv f t = cv_resize cv t (w, h)"
    using ns le tr by blast
next
  fix r
  assume r: "tmpl_resized cv f t = Inr r"
  show "rows r \<le> rows f"
  proof (cases "rows f < rows t \<or> cols f < cols t")
    case True
    then obtain w h where ns: "new_size f t = Inr (w, h)" and rs: "cv_resize cv t (w, h) = Inr r"
      using r by (auto simp: tmpl_resized_def split: sum.splits)
    show ?thesis
      using new_size_within_frame[OF assms(1,2,5,6) ns] cv_resize_shape[OF rs] by simp
  next
    case False
    then show ?thesis using r by (auto simp: tmpl_resized_def)
  qed
  show "cols r \<le> cols f"
  proof (cases "rows f < rows t \<or> cols f < cols t")
    case True
    then obtain w h where ns: "new_size f t = Inr (w, h)" and rs: "cv_resize cv t (w, h) = Inr r"
      using r by (auto simp: tmpl_resized_def split: sum.splits)
    show ?thesis
      using new_size_within_frame[OF assms(1,2,5,6) ns] cv_resize_shape[OF rs] by simp
  next
    case False
    then show ?thesis using r by (auto simp: tmpl_resized_def)
  qed
qed

text \<open>
  What is correlated: the template itself when it fits, and the resized template, of the
  computed size, when that size is not empty.
\<close>

lemma template_score_unscaled:
  assumes "0 < rows t" "0 < cols t" "rows t \<le> rows f" "cols t \<le> cols f"
  shows "tmpl_resized cv f t = Inr t
       \<and> template_score cv f t = Inr (ccoeff_normed_max cv f t)"
  using assms by (simp add: tmpl_resized_def template_score_def cv_match_max_def)

lemma template_score_resized:
  assumes big: "rows f < rows t \<or> cols f < cols t"
    and ns: "new_size f t = Inr (w, h)"
    and pos: "0 < w" "0 < h" and fit: "w \<le> cols f" "h \<le> rows f"
  shows "\<exists>r. tmpl_resized cv f t = Inr r
           \<and> rows r = h \<and> cols r = w \<and> pixels r = resize_area cv t w h
           \<and> template_score cv f t = Inr (ccoeff_normed_max cv f r)"
proof -
  let ?r = "\<lparr>rows = h, cols = w, channels = channels t, pixels = resize_area cv t w h\<rparr>"
  have rs: "cv_resize cv t (w, h) = Inr ?r"
    using pos by (simp add: cv_resize_def)
  have tr: "tmpl_resized cv f t = Inr ?r"
    using big by (simp add: tmpl_resized_def ns rs)
  have "cv_match_max cv f ?r = Inr (ccoeff_normed_max cv f ?r)"
    using pos fit by (simp add: cv_match_max_def)
  then have "template_score cv f t = Inr (ccoeff_normed_max cv f ?r)"
    by (simp add: template_score_def tr)
  with tr show ?thesis by simp
qed

lemma template_resized_and_correlated:
  assumes "0 < rows t" "0 < cols t" "rows f < 2 ^ 31" "cols f < 2 ^ 31"
    and big: "rows f < rows t \<or> cols f < cols t"
    and ns: "new_size f t = Inr (w, h)" and pos: "0 < w" "0 < h"
  shows "\<exists>r. tmpl_resized cv f t = Inr r
           \<and> rows r = h \<and> cols r = w \<and> h \<le> rows f \<and> w \<le> cols f
           \<and> template_score cv f t = Inr (ccoeff_normed_max cv f r)"
proof -
  have fit: "w \<le> cols f \<and> h \<le> rows f"
    by (rule new_size_within_frame[OF assms(1-4) ns])
  then have fw: "w \<le> cols f" and fh: "h \<le> rows f" by simp_all
  from template_score_resized[OF big ns pos fw fh, of cv] obtain r where
    "tmpl_resized cv f t = Inr r" "rows r = h" "cols r = w"
    "template_score cv f t = Inr (ccoeff_normed_max cv f r)"
    by blast
  then show ?thesis using fw fh by blast
qed

subsection \<open>A template much taller than wide\<close>

lemma round_q_8_64: "round_q 8 64 = (4503599627370496, - 55)"
  by (simp add: round_q_def ilog2_def round_half_even_def bit_length_eval)

lemma round_q_8_4: "round_q 8 4 = (4503599627370496, - 51)"
  by (simp add: round_q_def ilog2_def round_half_even_def bit_length_eval)

lemma py_min_eighth_two: "py_min (4503599627370496, - 55) (4503599627370496, - 51) = (4503599627370496, - 55)"
  by (simp add: py_min_def flt_def)

lemma float_of_int_4: "float_of_int 4 = (4503599627370496, - 50)"
  by (simp add: float_of_int_def round_q_def ilog2_def round_half_even_def bit_length_eval)

lemma float_of_int_64: "float_of_int 64 = (4503599627370496, - 46)"
  by (simp add: float_of_int_def round_q_def ilog2_def round_half_even_def bit_length_eval)

lemma py_int_4_times_eighth: "py_int (fmul (4503599627370496, - 50) (4503599627370496, - 55)) = 0"
  by (simp add: py_int_def fmul_def round_q_def ilog2_def round_half_even_def bit_length_eval)

lemma py_int_64_times_eighth: "py_int (fmul (4503599627370496, - 46) (4503599627370496, - 55)) = 8"
  by (simp add: py_int_def fmul_def round_q_def ilog2_def round_half_even_def bit_length_eval)

lemma new_size_tall_template:
  "new_size (gray_image 8 8 px) (gray_image 64 4 px') = Inr (0, 8)"
  by (simp add: new_size_def py_truediv_def Let_def gray_image_def round_q_8_64 round_q_8_4
      py_min_eighth_two float_of_int_4 float_of_int_64 py_int_4_times_eighth
      py_int_64_times_eighth)

text \<open>
  Claim C9 says that both resized dimensions are at least 1. On a frame of 8 by 8 and a
  template of 64 rows and 4 columns the scale is \<open>min(8/64, 8/4) = 0.125\<close>, the new
  width is \<open>int(4 * 0.125) = int(0.5) = 0\<close>, \<^verbatim>\<open>cv2.resize\<close> is handed the empty size
  \<open>(0, 8)\<close> and \<^verbatim>\<open>match_symbol\<close> ends in \<^verbatim>\<open>cv2.error\<close>. All the floats of this input
  are powers of two, so no rounding is involved.
\<close>

theorem C9_resized_width_zero:
  "new_size (gray_image 8 8 px) (gray_image 64 4 px') = Inr (0, 8)
   \<and> tmpl_resized cv (gray_image 8 8 px) (gray_image 64 4 px') = Inl CvError
   \<and> match_symbol cv (gray_image 8 8 px) [(name, gray_image 64 4 px')] = Inl CvError"
proof -
  have tr: "tmpl_resized cv (gray_image 8 8 px) (gray_image 64 4 px') = Inl CvError"
    by (simp add: tmpl_resized_def new_size_tall_template cv_resize_def)
      (simp add: gray_image_def)
  show ?thesis
    by (simp add: new_size_tall_template tr match_symbol_def template_score_def)
qed

subsection \<open>A square template on a frame of one pixel\<close>

text \<open>
  Rounding alone can empty the size: \<open>1 / 49\<close> rounds down, \<open>49 * (1 / 49)\<close> is the double
  just below \<open>1\<close>, and \<^verbatim>\<open>int\<close> truncates it to \<open>0\<close>, where exact arithmetic gives \<open>1\<close>.
\<close>

lemma round_q_1_49: "round_q (Suc 0) 49 = (5882252574524729, - 58)"
  by (simp add: round_q_def ilog2_def round_half_even_def bit_length_eval)

lemma float_of_int_49: "float_of_int 49 = (6896136929411072, - 47)"
  by (simp add: float_of_int_def round_q_def ilog2_def round_half_even_def bit_length_eval)

lemma fmul_49_times_49th:
  "fmul (6896136929411072, - 47) (5882252574524729, - 58) = (9007199254740991, - 53)"
  by (simp add: fmul_def round_q_def ilog2_def round_half_even_def bit_length_eval)

lemma py_int_below_one: "py_int (9007199254740991, - 53) = 0"
  by (simp add: py_int_def)

lemma new_size_square_template:
  "new_size (gray_image 1 1 px) (gray_image 49 49 px') = Inr (0, 0)"
  by (simp add: new_size_def py_truediv_def Let_def gray_image_def round_q_1_49 py_min_def flt_def
      float_of_int_49 fmul_49_times_49th py_int_below_one)

subsection \<open>A frame of one pixel\<close>

lemma round_q_1_64: "round_q (Suc 0) 64 = (4503599627370496, - 58)"
  by (simp add: round_q_def ilog2_def round_half_even_def bit_length_eval)

lemma round_q_1_32: "round_q (Suc 0) 32 = (4503599627370496, - 57)"
  by (simp add: round_q_def ilog2_def round_half_even_def bit_length_eval)

lemma py_min_64th_32nd:
  "py_min (4503599627370496, - 58) (4503599627370496, - 57) = (4503599627370496, - 58)"
  by (simp add: py_min_def flt_def)

lemma float_of_int_32: "float_of_int 32 = (4503599627370496, - 47)"
  by (simp add: float_of_int_def round_q_def ilog2_def round_half_even_def bit_length_eval)

lemma py_int_32_times_64th: "py_int (fmul (4503599627370496, - 47) (4503599627370496, - 58)) = 0"
  by (simp add: py_int_def fmul_def round_q_def ilog2_def round_half_even_def bit_length_eval)

lemma py_int_64_times_64th:
  "py_int (fmul (4503599627370496, - 46) (4503599627370496, - 58)) = Suc 0"
  by (simp add: py_int_def fmul_def round_q_def ilog2_def round_half_even_def bit_length_eval)

lemma new_size_one_pixel_frame:
  "new_size (gray_image 1 1 px) (gray_image 64 32 px') = Inr (0, 1)"
  by (simp add: new_size_def py_truediv_def Let_def gray_image_def round_q_1_64 round_q_1_32
      py_min_64th_32nd float_of_int_32 float_of_int_64 py_int_32_times_64th
      py_int_64_times_64th)

text \<open>
  Claim C1 says that a template exceeding the frame is resized by the uniform factor and
  then correlated. A click without a drag selects a region of one pixel; on that frame and
  a template of 64 rows and 32 columns the scale is \<open>min(1/64, 1/32) = 1/64\<close>, the size
  handed to \<^verbatim>\<open>cv2.resize\<close> is \<open>(int(0.5), int(1.0)) = (0, 1)\<close>, the resize raises
  \<^verbatim>\<open>cv2.error\<close>, and nothing is resized or correlated: \<^verbatim>\<open>match_symbol\<close> ends in the
  error. It is the defect of claim C9, the computed size not being kept from zero.
\<close>

theorem C1_one_pixel_frame:
  "new_size (gray_image 1 1 px) (gray_image 64 32 px') = Inr (0, 1)
   \<and> tmpl_resized cv (gray_image 1 1 px) (gray_image 64 32 px') = Inl CvError
   \<and> template_score cv (gray_image 1 1 px) (gray_image 64 32 px') = Inl CvError
   \<and> match_symbol cv (gray_image 1 1 px) [(name, gray_image 64 32 px')] = Inl CvError"
proof -
  have big: "rows (gray_image 1 1 px) < rows (gray_image 64 32 px')
               \<or> cols (gray_image 1 1 px) < cols (gray_image 64 32 px')"
    by (simp add: gray_image_def)
  have tr: "tmpl_resized cv (gray_image 1 1 px) (gray_image 64 32 px') = Inl CvError"
    unfolding tmpl_resized_def using big
    by (simp only: if_True new_size_one_pixel_frame) (simp add: cv_resize_def)
  have ts: "template_score cv (gray_image 1 1 px) (gray_image 64 32 px') = Inl CvError"
    unfolding template_score_def tr by simp
  have ml: "match_loop cv (gray_image 1 1 px) [(name, gray_image 64 32 px')] (None, - 1)
              = Inl CvError"
    by (simp only: match_loop.simps ts sum.case)
  have ms: "match_symbol cv (gray_image 1 1 px) [(name, gray_image 64 32 px')] = Inl CvError"
    unfolding match_symbol_def ml by simp
  show ?thesis
    using new_size_one_pixel_frame tr ts ms by (intro conjI)
qed

text \<open>The preview of line 240 is guarded: its size is never empty.\<close>

lemma preview_height_positive:
  "preview_size gray = Inr (w, h) \<Longrightarrow> 0 < w \<and> 0 < h"
  by (auto simp: preview_size_def split: sum.splits)

section \<open>The best match and the threshold\<close>

lemma scored_Nil [simp]: "scored cv f [] ss \<longleftrightarrow> ss = []"
  by (auto simp: scored_def)

lemma scored_Cons:
  "scored cv f ((n, t) # ts) ss \<longleftrightarrow>
     (\<exists>s ss'. ss = s # ss' \<and> template_score cv f t = Inr s \<and> scored cv f ts ss')"
  by (cases ss) (auto simp: scored_def)

lemma scored_length: "scored cv f ts ss \<Longrightarrow> length ss = length ts"
  unfolding scored_def by (metis length_map)

lemma scored_nth:
  "scored cv f ts ss \<Longrightarrow> i < length ts \<Longrightarrow> template_score cv f (snd (ts ! i)) = Inr (ss ! i)"
  unfolding scored_def by (metis length_map nth_map)

lemma Max_insert_insert:
  fixes b s :: rat
  assumes "finite A"
  shows "Max (insert b (insert s A)) = Max (insert (max b s) A)"
proof (cases "A = {}")
  case True
  then show ?thesis by (simp add: max.commute)
next
  case False
  then show ?thesis using assms by (simp add: max.assoc max.commute max.left_commute)
qed

lemma match_loop_scored:
  assumes "scored cv f ts ss"
  shows "\<exists>bn'. match_loop cv f ts (bn, bs) = Inr (bn', Max (insert bs (set ss)))
           \<and> (if \<exists>s\<in>set ss. bs < s
               then \<exists>i<length ts. bn' = Some (fst (ts ! i)) \<and> ss ! i = Max (insert bs (set ss))
                      \<and> (\<forall>j<i. ss ! j < ss ! i)
               else bn' = bn)"
  using assms
proof (induction ts arbitrary: ss bn bs)
  case Nil
  then show ?case by simp
next
  case (Cons nt ts)
  obtain n t where nt: "nt = (n, t)" by (cases nt)
  from Cons.prems obtain s ss' where ss: "ss = s # ss'"
    and sc: "template_score cv f t = Inr s" and rest: "scored cv f ts ss'"
    unfolding nt scored_Cons by blast
  have fin: "finite (set ss')" by simp
  show ?case
  proof (cases "bs < s")
    case True
    then have mx: "max bs s = s" by simp
    have step: "match_loop cv f (nt # ts) (bn, bs) = match_loop cv f ts (Some n, s)"
      using True by (simp add: nt sc)
    have M: "Max (insert bs (set ss)) = Max (insert s (set ss'))"
      unfolding ss using Max_insert_insert[OF fin, of bs s] mx by simp
    from Cons.IH[OF rest, of "Some n" s] obtain bn' where
      r: "match_loop cv f ts (Some n, s) = Inr (bn', Max (insert s (set ss')))"
      and c: "if \<exists>x\<in>set ss'. s < x
              then \<exists>i<length ts. bn' = Some (fst (ts ! i)) \<and> ss' ! i = Max (insert s (set ss'))
                     \<and> (\<forall>j<i. ss' ! j < ss' ! i)
              else bn' = Some n"
      by blast
    have ex: "\<exists>x\<in>set ss. bs < x" using True ss by auto
    have "\<exists>i<length (nt # ts). bn' = Some (fst ((nt # ts) ! i))
            \<and> ss ! i = Max (insert bs (set ss)) \<and> (\<forall>j<i. ss ! j < ss ! i)"
    proof (cases "\<exists>x\<in>set ss'. s < x")
      case True
      with c obtain i where i: "i < length ts" "bn' = Some (fst (ts ! i))"
        "ss' ! i = Max (insert s (set ss'))" "\<forall>j<i. ss' ! j < ss' ! i"
        by auto
      from True obtain x where x: "x \<in> set ss'" "s < x" by blast
      have "x \<le> Max (insert s (set ss'))" using x(1) by simp
      then have lt: "s < ss' ! i" using x(2) i(3) by simp
      have "\<forall>j<Suc i. ss ! j < ss ! Suc i"
      proof (intro allI impI)
        fix j assume "j < Suc i"
        then show "ss ! j < ss ! Suc i"
          using lt i(4) by (cases j) (simp_all add: ss)
      qed
      then show ?thesis
        using i M by (intro exI[of _ "Suc i"]) (simp add: ss)
    next
      case False
      with c have bn': "bn' = Some n" by simp
      from False have "\<forall>x\<in>set ss'. x \<le> s" by auto
      then have "Max (insert s (set ss')) = s"
        by (intro Max_eqI) auto
      then show ?thesis
        using bn' M by (intro exI[of _ 0]) (simp add: ss nt)
    qed
    then show ?thesis using step r M ex by simp
  next
    case False
    then have mx: "max bs s = bs" by simp
    have step: "match_loop cv f (nt # ts) (bn, bs) = match_loop cv f ts (bn, bs)"
      using False by (simp add: nt sc)
    have M: "Max (insert bs (set ss)) = Max (insert bs (set ss'))"
      unfolding ss using Max_insert_insert[OF fin, of bs s] mx by simp
    from Cons.IH[OF rest, of bn bs] obtain bn' where
      r: "match_loop cv f ts (bn, bs) = Inr (bn', Max (insert bs (set ss')))"
      and c: "if \<exists>x\<in>set ss'. bs < x
              then \<exists>i<length ts. bn' = Some (fst (ts ! i)) \<and> ss' ! i = Max (insert bs (set ss'))
                     \<and> (\<forall>j<i. ss' ! j < ss' ! i)
              else bn' = bn"
      by blast
    have exeq: "(\<exists>x\<in>set ss. bs < x) \<longleftrightarrow> (\<exists>x\<in>set ss'. bs < x)"
      using False ss by auto
    show ?thesis
    proof (cases "\<exists>x\<in>set ss'. bs < x")
      case True
      with c obtain i where i: "i < length ts" "bn' = Some (fst (ts ! i))"
        "ss' ! i = Max (insert bs (set ss'))" "\<forall>j<i. ss' ! j < ss' ! i"
        by auto
      from True obtain x where x: "x \<in> set ss'" "bs < x" by blast
      have "x \<le> Max (insert bs (set ss'))" using x(1) by simp
      then have lt: "s < ss' ! i" using x(2) i(3) False by simp
      have all: "\<forall>j<Suc i. ss ! j < ss ! Suc i"
      proof (intro allI impI)
        fix j assume "j < Suc i"
        then show "ss ! j < ss ! Suc i"
          using lt i(4) by (cases j) (simp_all add: ss)
      qed
      have "\<exists>i<length (nt # ts). bn' = Some (fst ((nt # ts) ! i))
            \<and> ss ! i = Max (insert bs (set ss)) \<and> (\<forall>j<i. ss ! j < ss ! i)"
        using i M all by (intro exI[of _ "Suc i"]) (simp add: ss)
      then show ?thesis using step r M True exeq by simp
    next
      case False
      with c have "bn' = bn" by simp
      then show ?thesis using step r M False exeq by simp
    qed
  qed
qed


lemma match_symbol_of_loop:
  "match_loop cv f ts (None, - 1) = Inr (bn, m) \<Longrightarrow>
   match_symbol cv f ts = Inr (if 3 / 4 \<le> m then bn else None, m)"
  by (simp add: match_symbol_def THRESHOLD_def)

lemma Max_with_floor:
  fixes A :: "rat set"
  assumes "finite A" "A \<noteq> {}" "\<forall>x\<in>A. b \<le> x"
  shows "Max (insert b A) = Max A"
proof -
  have "b \<le> Max A" using assms by (meson Max_in)
  then show ?thesis using assms by (simp add: max_def)
qed

subsection \<open>Scores of the example templates\<close>

lemma score_180: "template_score example_cv example_gray (pixel_template 180) = Inr (4 / 5)"
  by (simp add: template_score_def tmpl_resized_def cv_match_max_def example_cv_def
      example_gray_def gray_image_def pixel_template_def)

lemma score_190: "template_score example_cv example_gray (pixel_template 190) = Inr (9 / 10)"
  by (simp add: template_score_def tmpl_resized_def cv_match_max_def example_cv_def
      example_gray_def gray_image_def pixel_template_def)

lemma score_150: "template_score example_cv example_gray (pixel_template 150) = Inr (1 / 2)"
  by (simp add: template_score_def tmpl_resized_def cv_match_max_def example_cv_def
      example_gray_def gray_image_def pixel_template_def)

lemma score_0: "template_score example_cv example_gray (pixel_template 0) = Inr (- 1)"
  by (simp add: template_score_def tmpl_resized_def cv_match_max_def example_cv_def
      example_gray_def gray_image_def pixel_template_def)

text \<open>
  Claim C2. For a non-empty list of templates that all get a score (each at least
  \<open>-1\<close>, the least value of a normalised correlation coefficient), \<^verbatim>\<open>match_symbol\<close>
  returns the maximum of the scores in both cases; the symbol is the name of a template
  that attains the maximum when the maximum is at least \<open>0.75\<close>, and \<^verbatim>\<open>None\<close> when it is
  below.
\<close>

theorem C2_threshold_decision:
  assumes "ts \<noteq> []" and "scored cv f ts ss" and "\<forall>s\<in>set ss. - 1 \<le> s"
  shows "\<exists>sym. match_symbol cv f ts = Inr (sym, Max (set ss))
           \<and> (3 / 4 \<le> Max (set ss) \<longrightarrow>
                (\<exists>i<length ts. sym = Some (fst (ts ! i)) \<and> ss ! i = Max (set ss)))
           \<and> (Max (set ss) < 3 / 4 \<longrightarrow> sym = None)"
proof -
  have ne: "set ss \<noteq> {}" using assms(1) scored_length[OF assms(2)] by auto
  have M: "Max (insert (- 1) (set ss)) = Max (set ss)"
    using ne assms(3) by (intro Max_with_floor) simp_all
  from match_loop_scored[OF assms(2), of None "- 1"] obtain bn where
    r: "match_loop cv f ts (None, - 1) = Inr (bn, Max (set ss))"
    and c: "if \<exists>s\<in>set ss. - 1 < s
            then \<exists>i<length ts. bn = Some (fst (ts ! i)) \<and> ss ! i = Max (set ss)
                   \<and> (\<forall>j<i. ss ! j < ss ! i)
            else bn = None"
    unfolding M by blast
  have ms: "match_symbol cv f ts = Inr (if 3 / 4 \<le> Max (set ss) then bn else None, Max (set ss))"
    by (rule match_symbol_of_loop[OF r])
  have hi: "\<exists>i<length ts. bn = Some (fst (ts ! i)) \<and> ss ! i = Max (set ss)"
    if "3 / 4 \<le> Max (set ss)"
  proof -
    have "Max (set ss) \<in> set ss" using ne by (intro Max_in) simp_all
    moreover have "- 1 < Max (set ss)" using that by simp
    ultimately have "\<exists>s\<in>set ss. - 1 < s" by blast
    with c show ?thesis by auto
  qed
  show ?thesis using ms hi by auto
qed

theorem C2_threshold_decision_witness:
  "\<exists>sym i. match_symbol example_cv example_gray
              [(''A'', pixel_template 150), (''B'', pixel_template 180)] = Inr (sym, 4 / 5)
           \<and> sym = Some (fst ([(''A'', pixel_template 150), (''B'', pixel_template 180)] ! i))
           \<and> [1 / 2, 4 / 5 :: rat] ! i = 4 / 5"
  using C2_threshold_decision[of "[(''A'', pixel_template 150), (''B'', pixel_template 180)]"
      example_cv example_gray "[1 / 2, 4 / 5]"]
  by (simp add: scored_def score_150 score_180) blast

text \<open>
  Claim C4 says that among templates with the same maximal score \<^verbatim>\<open>match_symbol\<close> returns
  the name of the first one. As stated it fails where the shared maximum is below the
  threshold: two templates that both score \<open>0.5\<close> give \<^verbatim>\<open>(None, 0.5)\<close>.
\<close>

theorem C4_first_seen_needs_threshold:
  "scored example_cv example_gray
     [(''A'', pixel_template 150), (''B'', pixel_template 150)] [1 / 2, 1 / 2]
   \<and> match_symbol example_cv example_gray
       [(''A'', pixel_template 150), (''B'', pixel_template 150)] = Inr (None, 1 / 2)"
  by (simp add: scored_def score_150 match_symbol_def THRESHOLD_def)

text \<open>
  Claim C4, amended. Let every template get a score and let \<open>i\<close> be the first position
  whose score is the maximum (later positions may tie with it). When that maximum is at
  least \<open>0.75\<close>, \<^verbatim>\<open>match_symbol\<close> returns the name at position \<open>i\<close>, the first seen in
  the iteration order of the mapping; when it is below, the symbol is \<^verbatim>\<open>None\<close>. The
  score returned is the maximum.
\<close>

theorem C4_first_seen_tie_break:
  assumes "scored cv f ts ss" and "i < length ts"
    and "ss ! i = Max (set ss)" and "\<forall>j<i. ss ! j < ss ! i" and "- 1 \<le> ss ! i"
  shows "match_symbol cv f ts
           = Inr (if 3 / 4 \<le> ss ! i then Some (fst (ts ! i)) else None, ss ! i)"
proof -
  have len: "length ss = length ts" by (rule scored_length[OF assms(1)])
  have ne: "set ss \<noteq> {}" using assms(2) len by auto
  have M: "Max (insert (- 1) (set ss)) = ss ! i"
    using ne assms(3,5) by (simp add: max_def)
  from match_loop_scored[OF assms(1), of None "- 1"] obtain bn where
    r: "match_loop cv f ts (None, - 1) = Inr (bn, ss ! i)"
    and c: "if \<exists>s\<in>set ss. - 1 < s
            then \<exists>k<length ts. bn = Some (fst (ts ! k)) \<and> ss ! k = ss ! i
                   \<and> (\<forall>j<k. ss ! j < ss ! k)
            else bn = None"
    unfolding M by blast
  have ms: "match_symbol cv f ts = Inr (if 3 / 4 \<le> ss ! i then bn else None, ss ! i)"
    by (rule match_symbol_of_loop[OF r])
  show ?thesis
  proof (cases "3 / 4 \<le> ss ! i")
    case True
    have "ss ! i \<in> set ss" using assms(2) len by simp
    moreover have "- 1 < ss ! i" using True by simp
    ultimately have "\<exists>s\<in>set ss. - 1 < s" by blast
    with c obtain k where k: "k < length ts" "bn = Some (fst (ts ! k))" "ss ! k = ss ! i"
      "\<forall>j<k. ss ! j < ss ! k" by auto
    have "k = i"
    proof (rule ccontr)
      assume "k \<noteq> i"
      then consider "k < i" | "i < k" by linarith
      then show False
      proof cases
        case 1
        then have "ss ! k < ss ! i" using assms(4) by simp
        then show False using k(3) by simp
      next
        case 2
        then have "ss ! i < ss ! k" using k(4) by simp
        then show False using k(3) by simp
      qed
    qed
    then show ?thesis using ms k(2) True by simp
  next
    case False
    then show ?thesis using ms by simp
  qed
qed

theorem C4_first_seen_tie_break_witness:
  "match_symbol example_cv example_gray
     [(''A'', pixel_template 190), (''B'', pixel_template 190)] = Inr (Some ''A'', 9 / 10)"
  using C4_first_seen_tie_break[of example_cv example_gray
      "[(''A'', pixel_template 190), (''B'', pixel_template 190)]" "[9 / 10, 9 / 10]" 0]
  by (simp add: scored_def score_190)

lemma unique_best_loop:
  assumes mem: "(n, t) \<in> set ts" and sc: "template_score cv f t = Inr s" and low: "- 1 < s"
    and others: "\<forall>nt\<in>set ts. nt \<noteq> (n, t) \<longrightarrow>
                   (\<exists>s'. template_score cv f (snd nt) = Inr s' \<and> s' < s)"
  shows "match_loop cv f ts (None, - 1) = Inr (Some n, s)"
proof -
  define val where "val = (\<lambda>nt :: string \<times> image.
     case template_score cv f (snd nt) of Inl err \<Rightarrow> 0 | Inr x \<Rightarrow> x)"
  define ss where "ss = map val ts"
  have each: "template_score cv f (snd nt) = Inr (val nt) \<and> val nt \<le> s" if "nt \<in> set ts" for nt
  proof (cases "nt = (n, t)")
    case True
    then show ?thesis by (simp add: val_def sc)
  next
    case False
    with others that obtain s' where "template_score cv f (snd nt) = Inr s'" "s' < s" by blast
    then show ?thesis by (simp add: val_def)
  qed
  have scd: "scored cv f ts ss"
    unfolding scored_def ss_def using each by simp
  have vs: "val (n, t) = s" by (simp add: val_def sc)
  have s_in: "s \<in> set ss" unfolding ss_def using mem vs by force
  have le: "\<forall>x\<in>set ss. x \<le> s" unfolding ss_def using each by auto
  have M: "Max (insert (- 1) (set ss)) = s"
    using s_in le low by (intro Max_eqI) auto
  have ex: "\<exists>x\<in>set ss. - 1 < x" using s_in low by force
  from match_loop_scored[OF scd, of None "- 1"] ex obtain bn i where
    r: "match_loop cv f ts (None, - 1) = Inr (bn, s)"
    and i: "i < length ts" "bn = Some (fst (ts ! i))" "ss ! i = s"
    unfolding M by auto
  have "ts ! i = (n, t)"
  proof (rule ccontr)
    assume ne: "ts ! i \<noteq> (n, t)"
    have "ts ! i \<in> set ts" using i(1) by simp
    with others ne obtain s' where "template_score cv f (snd (ts ! i)) = Inr s'" "s' < s"
      by blast
    moreover have "template_score cv f (snd (ts ! i)) = Inr (ss ! i)"
      by (rule scored_nth[OF scd i(1)])
    ultimately show False using i(3) by simp
  qed
  then have "bn = Some n" using i(2) by simp
  then show ?thesis using r by simp
qed

text \<open>
  Claim C5. If one template has a score above \<open>-1\<close> and every other entry of the mapping
  scores strictly less, the scan of \<^verbatim>\<open>match_symbol\<close> ends with that template as the best
  one, in whatever order the entries are iterated; the threshold is applied to it after
  the scan, so that the template is returned exactly when its score is at least \<open>0.75\<close>
  (as with \<open>0.80\<close> and \<open>0.90\<close>, where the \<open>0.90\<close> template is returned in both orders).
\<close>

theorem C5_higher_score_wins:
  assumes "(n, t) \<in> set ts" and "template_score cv f t = Inr s" and "- 1 < s"
    and "\<forall>nt\<in>set ts. nt \<noteq> (n, t) \<longrightarrow>
           (\<exists>s'. template_score cv f (snd nt) = Inr s' \<and> s' < s)"
    and "set ts' = set ts"
  shows "match_loop cv f ts (None, - 1) = Inr (Some n, s)
       \<and> match_loop cv f ts' (None, - 1) = Inr (Some n, s)
       \<and> match_symbol cv f ts = Inr (if 3 / 4 \<le> s then Some n else None, s)
       \<and> match_symbol cv f ts' = Inr (if 3 / 4 \<le> s then Some n else None, s)"
proof -
  have a: "match_loop cv f ts (None, - 1) = Inr (Some n, s)"
    by (rule unique_best_loop[OF assms(1-4)])
  have b: "match_loop cv f ts' (None, - 1) = Inr (Some n, s)"
    using assms by (intro unique_best_loop) simp_all
  show ?thesis
    using a b match_symbol_of_loop[OF a] match_symbol_of_loop[OF b] by simp
qed

theorem C5_higher_score_wins_witness:
  "match_symbol example_cv example_gray
     [(''A'', pixel_template 180), (''B'', pixel_template 190)] = Inr (Some ''B'', 9 / 10)
   \<and> match_symbol example_cv example_gray
     [(''B'', pixel_template 190), (''A'', pixel_template 180)] = Inr (Some ''B'', 9 / 10)"
proof -
  let ?ts = "[(''A'', pixel_template 180), (''B'', pixel_template 190)]"
  let ?ts' = "[(''B'', pixel_template 190), (''A'', pixel_template 180)]"
  have h1: "(''B'', pixel_template 190) \<in> set ?ts" by simp
  have h3: "(- 1 :: rat) < 9 / 10" by simp
  have h4: "\<forall>nt\<in>set ?ts. nt \<noteq> (''B'', pixel_template 190) \<longrightarrow>
              (\<exists>s'. template_score example_cv example_gray (snd nt) = Inr s' \<and> s' < 9 / 10)"
  proof (intro ballI impI)
    fix nt :: "string \<times> image"
    assume "nt \<in> set ?ts" and "nt \<noteq> (''B'', pixel_template 190)"
    then have "nt = (''A'', pixel_template 180)" by auto
    then have "template_score example_cv example_gray (snd nt) = Inr (4 / 5) \<and> (4 / 5 :: rat) < 9 / 10"
      by (simp add: score_180)
    then show "\<exists>s'. template_score example_cv example_gray (snd nt) = Inr s' \<and> s' < 9 / 10"
      by blast
  qed
  have h5: "set ?ts' = set ?ts" by auto
  show ?thesis using C5_higher_score_wins[OF h1 score_190 h3 h4 h5] by simp
qed

text \<open>
  Claim C10. On an empty mapping \<^verbatim>\<open>match_symbol\<close> returns \<^verbatim>\<open>(None, -1.0)\<close> and raises
  nothing; a non-empty mapping whose best score is exactly \<open>-1\<close> returns the same pair.
\<close>

theorem C10_empty_store:
  "match_symbol cv f [] = Inr (None, - 1)
   \<and> (ts \<noteq> [] \<and> scored cv f ts ss \<and> Max (set ss) = - 1
        \<longrightarrow> match_symbol cv f ts = match_symbol cv f [])"
proof (intro conjI impI)
  show e: "match_symbol cv f [] = Inr (None, - 1)"
    by (simp add: match_symbol_def THRESHOLD_def)
  assume a: "ts \<noteq> [] \<and> scored cv f ts ss \<and> Max (set ss) = - 1"
  then have scd: "scored cv f ts ss" and mx: "Max (set ss) = - 1" by simp_all
  have ne: "set ss \<noteq> {}" using a scored_length[OF scd] by auto
  have le: "\<forall>x\<in>set ss. x \<le> - 1" using mx ne by (metis List.finite_set Max_ge)
  have M: "Max (insert (- 1) (set ss)) = - 1"
    using le by (intro Max_eqI) auto
  have nex: "\<not> (\<exists>x\<in>set ss. - 1 < x)" using le by auto
  from match_loop_scored[OF scd, of None "- 1"] nex
  have "match_loop cv f ts (None, - 1) = Inr (None, - 1)"
    unfolding M by auto
  from match_symbol_of_loop[OF this] show "match_symbol cv f ts = match_symbol cv f []"
    using e by simp
qed

theorem C10_empty_store_witness:
  "match_symbol example_cv example_gray [(''A'', pixel_template 0)]
     = match_symbol example_cv example_gray []
   \<and> match_symbol example_cv example_gray [] = Inr (None, - 1)"
  using C10_empty_store[of example_cv example_gray "[(''A'', pixel_template 0)]" "[- 1]"]
  by (simp add: scored_def score_0)

section \<open>Loading the templates\<close>

lemma dict_set_keys:
  "map fst (dict_set d k v) = (if k \<in> set (map fst d) then map fst d else map fst d @ [k])"
  by (induction d k v rule: dict_set.induct) auto

lemma dict_set_entries: "set (dict_set d k v) \<subseteq> insert (k, v) (set d)"
  by (induction d k v rule: dict_set.induct) auto

lemma dict_set_lookup: "map_of (dict_set d k v) = (map_of d)(k \<mapsto> v)"
  by (induction d k v rule: dict_set.induct) auto

lemma load_loop_raise:
  "imread_grayscale cv (path_join folder fname) = Inl err \<Longrightarrow>
   load_loop cv ue folder acc (fname # fnames) = Inl err"
  by simp

lemma load_loop_None:
  "imread_grayscale cv (path_join folder fname) = Inr None \<Longrightarrow>
   load_loop cv ue folder acc (fname # fnames) = load_loop cv ue folder acc fnames"
  by simp

lemma load_loop_Some:
  "imread_grayscale cv (path_join folder fname) = Inr (Some img) \<Longrightarrow>
   load_loop cv ue folder acc (fname # fnames) =
     load_loop cv ue folder
       (dict_set acc (base_name fname) (if ue then Canny cv img 50 150 else img)) fnames"
  by (simp add: base_name_def)

lemma imread_cases:
  obtains (raise) err where "imread_grayscale cv p = Inl err"
  | (none) "imread_grayscale cv p = Inr None"
  | (some) img where "imread_grayscale cv p = Inr (Some img)"
proof (cases "imread_grayscale cv p")
  case (Inl err)
  then show ?thesis by (rule raise)
next
  case (Inr r)
  then show ?thesis by (cases r) (auto intro: none some)
qed

lemma decodes_raise:
  "imread_grayscale cv (path_join folder fname) = Inl err \<Longrightarrow> \<not> decodes cv folder fname"
  by (simp add: decodes_def)

lemma decodes_None:
  "imread_grayscale cv (path_join folder fname) = Inr None \<Longrightarrow> \<not> decodes cv folder fname"
  by (simp add: decodes_def)

lemma decodes_Some:
  "imread_grayscale cv (path_join folder fname) = Inr (Some img) \<Longrightarrow> decodes cv folder fname"
  by (simp add: decodes_def)

text \<open>The loop returns a store when the decoder raises on no file, and fails when it raises on one.\<close>

lemma load_loop_returns:
  "\<forall>fname\<in>set fnames. imread_returns cv folder fname \<Longrightarrow>
   \<exists>ts. load_loop cv ue folder acc fnames = Inr ts"
proof (induction fnames arbitrary: acc)
  case Nil
  then show ?case by simp
next
  case (Cons fname fnames)
  then have rest: "\<forall>fname\<in>set fnames. imread_returns cv folder fname" by simp
  show ?case
  proof (cases rule: imread_cases[of cv "path_join folder fname"])
    case (raise err)
    then have "\<not> imread_returns cv folder fname" by (simp add: imread_returns_def)
    then show ?thesis using Cons.prems by simp
  next
    case none
    show ?thesis unfolding load_loop_None[OF none] by (rule Cons.IH[OF rest])
  next
    case (some img)
    show ?thesis unfolding load_loop_Some[OF some] by (rule Cons.IH[OF rest])
  qed
qed

lemma load_loop_raises:
  "fname \<in> set fnames \<Longrightarrow> \<not> imread_returns cv folder fname \<Longrightarrow>
   \<exists>err. load_loop cv ue folder acc fnames = Inl err"
proof (induction fnames arbitrary: acc)
  case Nil
  then show ?case by simp
next
  case (Cons f fnames)
  show ?case
  proof (cases rule: imread_cases[of cv "path_join folder f"])
    case (raise err)
    then show ?thesis by (simp only: load_loop_raise) simp
  next
    case none
    then have "imread_returns cv folder f" by (simp add: imread_returns_def)
    then have "fname \<in> set fnames" using Cons.prems by auto
    then show ?thesis unfolding load_loop_None[OF none] using Cons.IH Cons.prems(2) by blast
  next
    case (some img)
    then have "imread_returns cv folder f" by (simp add: imread_returns_def)
    then have "fname \<in> set fnames" using Cons.prems by auto
    then show ?thesis unfolding load_loop_Some[OF some] using Cons.IH Cons.prems(2) by blast
  qed
qed

lemma load_loop_keys_distinct:
  "load_loop cv ue folder acc fnames = Inr ts \<Longrightarrow> distinct (map fst acc) \<Longrightarrow>
   distinct (map fst ts)"
proof (induction fnames arbitrary: acc)
  case Nil
  then show ?case by simp
next
  case (Cons fname fnames)
  show ?case
  proof (cases rule: imread_cases[of cv "path_join folder fname"])
    case (raise err)
    then show ?thesis using Cons.prems(1) by (simp only: load_loop_raise) simp
  next
    case none
    then show ?thesis using Cons by (simp only: load_loop_None)
  next
    case (some img)
    let ?acc = "dict_set acc (base_name fname) (if ue then Canny cv img 50 150 else img)"
    have l: "load_loop cv ue folder ?acc fnames = Inr ts"
      using Cons.prems(1) by (simp only: load_loop_Some[OF some])
    have "distinct (map fst ?acc)" using Cons.prems(2) by (simp add: dict_set_keys)
    then show ?thesis by (rule Cons.IH[OF l])
  qed
qed

lemma load_loop_keys_set:
  "load_loop cv ue folder acc fnames = Inr ts \<Longrightarrow>
   set (map fst ts) = set (map fst acc) \<union> base_name ` set (filter (decodes cv folder) fnames)"
proof (induction fnames arbitrary: acc)
  case Nil
  then show ?case by auto
next
  case (Cons fname fnames)
  show ?case
  proof (cases rule: imread_cases[of cv "path_join folder fname"])
    case (raise err)
    then show ?thesis using Cons.prems by (simp only: load_loop_raise) simp
  next
    case none
    have l: "load_loop cv ue folder acc fnames = Inr ts"
      using Cons.prems by (simp only: load_loop_None[OF none])
    show ?thesis using Cons.IH[OF l] decodes_None[OF none] by simp
  next
    case (some img)
    let ?acc = "dict_set acc (base_name fname) (if ue then Canny cv img 50 150 else img)"
    have l: "load_loop cv ue folder ?acc fnames = Inr ts"
      using Cons.prems by (simp only: load_loop_Some[OF some])
    have k: "set (map fst ?acc) = insert (base_name fname) (set (map fst acc))"
      by (auto simp: dict_set_keys)
    show ?thesis unfolding Cons.IH[OF l] k using decodes_Some[OF some] by auto
  qed
qed

lemma load_loop_keys_order:
  "load_loop cv ue folder acc fnames = Inr ts \<Longrightarrow>
   distinct (map fst acc @ map base_name (filter (decodes cv folder) fnames)) \<Longrightarrow>
   map fst ts = map fst acc @ map base_name (filter (decodes cv folder) fnames)"
proof (induction fnames arbitrary: acc)
  case Nil
  then show ?case by auto
next
  case (Cons fname fnames)
  show ?case
  proof (cases rule: imread_cases[of cv "path_join folder fname"])
    case (raise err)
    then show ?thesis using Cons.prems(1) by (simp only: load_loop_raise) simp
  next
    case none
    have l: "load_loop cv ue folder acc fnames = Inr ts"
      using Cons.prems(1) by (simp only: load_loop_None[OF none])
    have d: "distinct (map fst acc @ map base_name (filter (decodes cv folder) fnames))"
      using Cons.prems(2) decodes_None[OF none] by simp
    show ?thesis using Cons.IH[OF l d] decodes_None[OF none] by simp
  next
    case (some img)
    let ?acc = "dict_set acc (base_name fname) (if ue then Canny cv img 50 150 else img)"
    have l: "load_loop cv ue folder ?acc fnames = Inr ts"
      using Cons.prems(1) by (simp only: load_loop_Some[OF some])
    have dec: "decodes cv folder fname" by (rule decodes_Some[OF some])
    have new: "base_name fname \<notin> set (map fst acc)" using Cons.prems(2) dec by auto
    then have k: "map fst ?acc = map fst acc @ [base_name fname]"
      by (simp add: dict_set_keys)
    have d: "distinct (map fst ?acc @ map base_name (filter (decodes cv folder) fnames))"
      unfolding k using Cons.prems(2) dec by simp
    show ?thesis using Cons.IH[OF l d] dec unfolding k by simp
  qed
qed

lemma find_snoc:
  "find P (xs @ [x]) = (case find P xs of None \<Rightarrow> (if P x then Some x else None) | Some y \<Rightarrow> Some y)"
  by (induction xs) auto

lemma find_filter: "find Q (filter P xs) = find (\<lambda>x. P x \<and> Q x) xs"
  by (induction xs) auto

lemma load_loop_lookup:
  "load_loop cv ue folder acc fnames = Inr ts \<Longrightarrow>
   map_of ts name =
     (case find (\<lambda>fname. decodes cv folder fname \<and> base_name fname = name) (rev fnames) of
        None \<Rightarrow> map_of acc name
      | Some fname \<Rightarrow>
          (case imread_grayscale cv (path_join folder fname) of
             Inl err \<Rightarrow> None
           | Inr None \<Rightarrow> None
           | Inr (Some raw) \<Rightarrow> Some (if ue then Canny cv raw 50 150 else raw)))"
proof (induction fnames arbitrary: acc)
  case Nil
  then show ?case by auto
next
  case (Cons fname fnames)
  show ?case
  proof (cases rule: imread_cases[of cv "path_join folder fname"])
    case (raise err)
    then show ?thesis using Cons.prems by (simp only: load_loop_raise) simp
  next
    case none
    have l: "load_loop cv ue folder acc fnames = Inr ts"
      using Cons.prems by (simp only: load_loop_None[OF none])
    show ?thesis
      unfolding Cons.IH[OF l]
      using decodes_None[OF none] by (simp add: find_snoc split: option.splits)
  next
    case (some img)
    let ?acc = "dict_set acc (base_name fname) (if ue then Canny cv img 50 150 else img)"
    have l: "load_loop cv ue folder ?acc fnames = Inr ts"
      using Cons.prems by (simp only: load_loop_Some[OF some])
    show ?thesis
      unfolding Cons.IH[OF l]
      using decodes_Some[OF some] some
      by (simp add: find_snoc dict_set_lookup split: option.splits)
  qed
qed

lemma load_loop_last_file:
  assumes l: "load_loop cv ue folder [] (sort fnames) = Inr ts" and m: "nt \<in> set ts"
  shows "\<exists>fname. last_with_base cv folder fnames (fst nt) = Some fname
           \<and> from_file cv ue folder nt fname"
proof -
  have "distinct (map fst ts)" by (rule load_loop_keys_distinct[OF l]) simp
  then have "map_of ts (fst nt) = Some (snd nt)" using m by simp
  then obtain fname raw where
    f: "find (\<lambda>fname. decodes cv folder fname \<and> base_name fname = fst nt) (rev (sort fnames))
          = Some fname"
    and r: "imread_grayscale cv (path_join folder fname) = Inr (Some raw)"
    and v: "snd nt = (if ue then Canny cv raw 50 150 else raw)"
    unfolding load_loop_lookup[OF l] by (auto split: option.splits sum.splits)
  have lw: "last_with_base cv folder fnames (fst nt) = Some fname"
    using f by (simp add: last_with_base_def decodable_sorted_def rev_filter find_filter)
  have "base_name fname = fst nt" using f by (auto dest: find_Some_iff[THEN iffD1])
  then have "from_file cv ue folder nt fname"
    using r v by (simp add: from_file_def)
  with lw show ?thesis by blast
qed

lemma load_loop_without_Canny:
  "load_loop (cv\<lparr>Canny := c\<rparr>) False folder acc fnames = load_loop cv False folder acc fnames"
  by (induction fnames arbitrary: acc) (simp_all split: sum.splits option.splits)

lemma load_templates_Inr:
  assumes "load_templates cv ue folder = Inr ts"
  obtains fnames where "listdir cv folder = Some fnames"
    and "load_loop cv ue folder [] (sort fnames) = Inr ts"
  using assms by (auto simp: load_templates_def split: option.splits)

text \<open>
  A file on which \<^verbatim>\<open>cv2.imread\<close> raises is not skipped: the load fails, whatever the
  other files are.
\<close>

lemma load_templates_imread_raises:
  assumes "listdir cv folder = Some fnames" and "fname \<in> set fnames"
    and "\<not> imread_returns cv folder fname"
  shows "\<exists>err. load_templates cv ue folder = Inl err"
proof -
  have "fname \<in> set (sort fnames)" using assms(2) by simp
  from load_loop_raises[OF this assms(3)] show ?thesis
    using assms(1) by (simp add: load_templates_def)
qed

subsection \<open>The example directories\<close>

lemma sorted_templates_listing:
  "sort [''B.png'', ''notes.txt'', ''A.png'', ''E.png'', ''D.png'', ''C.png'']
     = [''A.png'', ''B.png'', ''C.png'', ''D.png'', ''E.png'', ''notes.txt'']"
  by (simp add: less_eq_char_def less_char_def)

lemma sorted_mixed_listing:
  "sort [''A.png'', ''A.jpg'', ''D.png'', ''notes.txt'', ''C.png'', ''B.png'']
     = [''A.jpg'', ''A.png'', ''B.png'', ''C.png'', ''D.png'', ''notes.txt'']"
  by (simp add: less_eq_char_def less_char_def)

lemma sorted_oversized_listing:
  "sort [''huge.png'', ''A.png''] = [''A.png'', ''huge.png'']"
  by (simp add: less_eq_char_def less_char_def)

lemma example_base_names:
  "base_name ''A.png'' = ''A''" "base_name ''B.png'' = ''B''" "base_name ''C.png'' = ''C''"
  "base_name ''D.png'' = ''D''" "base_name ''E.png'' = ''E''" "base_name ''A.jpg'' = ''A''"
  "base_name ''notes.txt'' = ''notes''"
  by (simp_all add: base_name_def splitext_def rfind_def)

lemma example_templates_files:
  "imread_grayscale example_cv (path_join ''templates'' ''A.png'') = Inr (Some (gray_image 2 2 [10, 200, 200, 10]))"
  "imread_grayscale example_cv (path_join ''templates'' ''B.png'') = Inr (Some (gray_image 2 2 [20, 200, 200, 20]))"
  "imread_grayscale example_cv (path_join ''templates'' ''C.png'') = Inr (Some (gray_image 2 2 [30, 200, 200, 30]))"
  "imread_grayscale example_cv (path_join ''templates'' ''D.png'') = Inr (Some (gray_image 2 2 [40, 200, 200, 40]))"
  "imread_grayscale example_cv (path_join ''templates'' ''E.png'') = Inr (Some (gray_image 2 2 [50, 200, 200, 50]))"
  "imread_grayscale example_cv (path_join ''templates'' ''notes.txt'') = Inr None"
  by (simp_all add: example_cv_def example_files_def path_join_def)

lemma example_mixed_files:
  "imread_grayscale example_cv (path_join ''mixed'' ''A.jpg'') = Inr (Some (gray_image 2 2 [10, 200, 200, 10]))"
  "imread_grayscale example_cv (path_join ''mixed'' ''A.png'') = Inr (Some (gray_image 2 2 [60, 200, 200, 60]))"
  "imread_grayscale example_cv (path_join ''mixed'' ''B.png'') = Inr (Some (gray_image 2 2 [20, 200, 200, 20]))"
  "imread_grayscale example_cv (path_join ''mixed'' ''C.png'') = Inr (Some (gray_image 2 2 [30, 200, 200, 30]))"
  "imread_grayscale example_cv (path_join ''mixed'' ''D.png'') = Inr (Some (gray_image 2 2 [40, 200, 200, 40]))"
  "imread_grayscale example_cv (path_join ''mixed'' ''notes.txt'') = Inr None"
  by (simp_all add: example_cv_def example_files_def path_join_def)

lemma example_oversized_files:
  "imread_grayscale example_cv (path_join ''oversized'' ''A.png'') = Inr (Some (gray_image 2 2 [10, 200, 200, 10]))"
  "imread_grayscale example_cv (path_join ''oversized'' ''huge.png'') = Inl CvError"
  by (simp_all add: example_cv_def example_files_def path_join_def)

lemma example_listings:
  "listdir example_cv ''templates''
     = Some [''B.png'', ''notes.txt'', ''A.png'', ''E.png'', ''D.png'', ''C.png'']"
  "listdir example_cv ''mixed''
     = Some [''A.png'', ''A.jpg'', ''D.png'', ''notes.txt'', ''C.png'', ''B.png'']"
  "listdir example_cv ''oversized'' = Some [''huge.png'', ''A.png'']"
  by (simp_all add: example_cv_def)

lemma load_example_templates:
  "load_templates example_cv True ''templates'' =
     Inr [(''A'', Canny example_cv (gray_image 2 2 [10, 200, 200, 10]) 50 150),
          (''B'', Canny example_cv (gray_image 2 2 [20, 200, 200, 20]) 50 150),
          (''C'', Canny example_cv (gray_image 2 2 [30, 200, 200, 30]) 50 150),
          (''D'', Canny example_cv (gray_image 2 2 [40, 200, 200, 40]) 50 150),
          (''E'', Canny example_cv (gray_image 2 2 [50, 200, 200, 50]) 50 150)]"
  by (simp add: load_templates_def example_listings sorted_templates_listing
      load_loop_Some load_loop_None example_templates_files example_base_names
      del: load_loop.simps(2))

lemma load_example_mixed:
  "load_templates example_cv USE_EDGES ''mixed'' =
       Inr [(''A'', Canny example_cv (gray_image 2 2 [60, 200, 200, 60]) 50 150),
            (''B'', Canny example_cv (gray_image 2 2 [20, 200, 200, 20]) 50 150),
            (''C'', Canny example_cv (gray_image 2 2 [30, 200, 200, 30]) 50 150),
            (''D'', Canny example_cv (gray_image 2 2 [40, 200, 200, 40]) 50 150)]"
  by (simp add: load_templates_def USE_EDGES_def example_listings sorted_mixed_listing
      load_loop_Some load_loop_None example_mixed_files example_base_names
      del: load_loop.simps(2))

text \<open>One file on which the decoder raises, and the image beside it is not loaded either.\<close>

lemma load_example_oversized:
  "load_templates example_cv USE_EDGES ''oversized'' = Inl CvError"
  by (simp add: load_templates_def USE_EDGES_def example_listings sorted_oversized_listing
      load_loop_Some load_loop_raise example_oversized_files example_base_names
      del: load_loop.simps(2))

lemma decodable_templates:
  "decodable_sorted example_cv ''templates''
     [''B.png'', ''notes.txt'', ''A.png'', ''E.png'', ''D.png'', ''C.png'']
   = [''A.png'', ''B.png'', ''C.png'', ''D.png'', ''E.png'']"
  by (simp add: decodable_sorted_def sorted_templates_listing decodes_def example_templates_files)

lemma decodable_mixed:
  "decodable_sorted example_cv ''mixed''
     [''A.png'', ''A.jpg'', ''D.png'', ''notes.txt'', ''C.png'', ''B.png'']
   = [''A.jpg'', ''A.png'', ''B.png'', ''C.png'', ''D.png'']"
  by (simp add: decodable_sorted_def sorted_mixed_listing decodes_def example_mixed_files)

lemma templates_base_names:
  "map base_name (decodable_sorted example_cv ''templates''
     [''B.png'', ''notes.txt'', ''A.png'', ''E.png'', ''D.png'', ''C.png''])
   = [''A'', ''B'', ''C'', ''D'', ''E'']"
  by (simp add: decodable_templates example_base_names)

lemma templates_count:
  "length (decodable_sorted example_cv ''templates''
     [''B.png'', ''notes.txt'', ''A.png'', ''E.png'', ''D.png'', ''C.png'']) = 5"
  by (simp add: decodable_templates)

lemma templates_all_return:
  "\<forall>fname\<in>set [''B.png'', ''notes.txt'', ''A.png'', ''E.png'', ''D.png'', ''C.png''].
     imread_returns example_cv ''templates'' fname"
  by (simp add: imread_returns_def example_templates_files)

text \<open>
  Claim C3. With edge mode on, the frame that \<^verbatim>\<open>preprocess\<close> returns and every template
  that \<^verbatim>\<open>load_templates\<close> stores are results of the same detector with the same
  thresholds, \<^verbatim>\<open>cv2.Canny(_, 50, 150)\<close>: the frame of its equalised grayscale image, a
  template of the grayscale image decoded from a file. With edge mode off, the frame is
  the equalised grayscale image and a template is the decoded grayscale image; neither
  function consults the detector, whatever it computes.
\<close>

theorem C3_same_representation:
  "preprocess cv True img =
     Canny cv (equalizeHist cv (if channels img = None then img else cvtColor_BGR2GRAY cv img)) 50 150
   \<and> (load_templates cv True folder = Inr ts \<longrightarrow>
        (\<forall>nt\<in>set ts. \<exists>fname raw. imread_grayscale cv (path_join folder fname) = Inr (Some raw)
            \<and> snd nt = Canny cv raw 50 150))
   \<and> preprocess cv False img =
        equalizeHist cv (if channels img = None then img else cvtColor_BGR2GRAY cv img)
   \<and> preprocess (cv\<lparr>Canny := c\<rparr>) False img = preprocess cv False img
   \<and> (load_templates cv False folder = Inr ts' \<longrightarrow>
        (\<forall>nt\<in>set ts'. \<exists>fname. imread_grayscale cv (path_join folder fname) = Inr (Some (snd nt))))
   \<and> load_templates (cv\<lparr>Canny := c\<rparr>) False folder = load_templates cv False folder"
proof (intro conjI impI ballI)
  show "preprocess cv True img =
     Canny cv (equalizeHist cv (if channels img = None then img else cvtColor_BGR2GRAY cv img)) 50 150"
    by (simp add: preprocess_def)
  show "preprocess cv False img =
        equalizeHist cv (if channels img = None then img else cvtColor_BGR2GRAY cv img)"
    by (simp add: preprocess_def)
  show "preprocess (cv\<lparr>Canny := c\<rparr>) False img = preprocess cv False img"
    by (simp add: preprocess_def)
  show "load_templates (cv\<lparr>Canny := c\<rparr>) False folder = load_templates cv False folder"
    by (simp add: load_templates_def load_loop_without_Canny split: option.splits)
next
  fix nt
  assume l: "load_templates cv True folder = Inr ts" and m: "nt \<in> set ts"
  from l obtain fnames where ll: "load_loop cv True folder [] (sort fnames) = Inr ts"
    by (rule load_templates_Inr)
  from load_loop_last_file[OF ll m] obtain fname where
    "from_file cv True folder nt fname" by auto
  then show "\<exists>fname raw. imread_grayscale cv (path_join folder fname) = Inr (Some raw)
            \<and> snd nt = Canny cv raw 50 150"
    by (auto simp: from_file_def split: sum.splits option.splits)
next
  fix nt
  assume l: "load_templates cv False folder = Inr ts'" and m: "nt \<in> set ts'"
  from l obtain fnames where ll: "load_loop cv False folder [] (sort fnames) = Inr ts'"
    by (rule load_templates_Inr)
  from load_loop_last_file[OF ll m] obtain fname where
    "from_file cv False folder nt fname" by auto
  then show "\<exists>fname. imread_grayscale cv (path_join folder fname) = Inr (Some (snd nt))"
    by (auto simp: from_file_def split: sum.splits option.splits)
qed

theorem C3_same_representation_witness:
  "load_templates example_cv True ''templates'' =
     Inr [(''A'', Canny example_cv (gray_image 2 2 [10, 200, 200, 10]) 50 150),
          (''B'', Canny example_cv (gray_image 2 2 [20, 200, 200, 20]) 50 150),
          (''C'', Canny example_cv (gray_image 2 2 [30, 200, 200, 30]) 50 150),
          (''D'', Canny example_cv (gray_image 2 2 [40, 200, 200, 40]) 50 150),
          (''E'', Canny example_cv (gray_image 2 2 [50, 200, 200, 50]) 50 150)]
   \<and> (\<exists>fname raw. imread_grayscale example_cv (path_join ''templates'' fname) = Inr (Some raw)
          \<and> Canny example_cv (gray_image 2 2 [10, 200, 200, 10]) 50 150
              = Canny example_cv raw 50 150)
   \<and> preprocess example_cv True example_frame
        = Canny example_cv (equalizeHist example_cv (cvtColor_BGR2GRAY example_cv example_frame)) 50 150"
proof -
  let ?A = "(''A'', Canny example_cv (gray_image 2 2 [10, 200, 200, 10]) 50 150)"
  let ?ts = "[?A,
          (''B'', Canny example_cv (gray_image 2 2 [20, 200, 200, 20]) 50 150),
          (''C'', Canny example_cv (gray_image 2 2 [30, 200, 200, 30]) 50 150),
          (''D'', Canny example_cv (gray_image 2 2 [40, 200, 200, 40]) 50 150),
          (''E'', Canny example_cv (gray_image 2 2 [50, 200, 200, 50]) 50 150)]"
  note c3 = C3_same_representation[of example_cv example_frame "''templates''" ?ts]
  have l: "load_templates example_cv True ''templates'' = Inr ?ts"
    by (rule load_example_templates)
  have ch: "channels example_frame = Some 3" by (simp add: example_frame_def)
  have p: "preprocess example_cv True example_frame
        = Canny example_cv (equalizeHist example_cv (cvtColor_BGR2GRAY example_cv example_frame)) 50 150"
    using c3[THEN conjunct1] by (simp only: ch) simp
  have all: "\<forall>nt\<in>set ?ts. \<exists>fname raw.
           imread_grayscale example_cv (path_join ''templates'' fname) = Inr (Some raw)
           \<and> snd nt = Canny example_cv raw 50 150"
    using c3[THEN conjunct2, THEN conjunct1] l by (rule mp)
  have "?A \<in> set ?ts" by simp
  with all have "\<exists>fname raw.
           imread_grayscale example_cv (path_join ''templates'' fname) = Inr (Some raw)
           \<and> snd ?A = Canny example_cv raw 50 150"
    by (rule bspec)
  then have a: "\<exists>fname raw. imread_grayscale example_cv (path_join ''templates'' fname) = Inr (Some raw)
          \<and> Canny example_cv (gray_image 2 2 [10, 200, 200, 10]) 50 150
              = Canny example_cv raw 50 150"
    by (simp only: snd_conv)
  show ?thesis using l a p by (intro conjI)
qed

text \<open>
  Claim C6 says that every decodable file gives an entry, so that five valid files and one
  corrupt file give five entries. As stated it fails where two decodable files share a
  base name: the store is keyed by base name, the later file replaces the image of the
  earlier one, and the directory \<^verbatim>\<open>mixed\<close> (five decodable files, one that is not)
  loads as four entries.
\<close>

theorem C6_same_base_name_one_entry:
  "listdir example_cv ''mixed''
     = Some [''A.png'', ''A.jpg'', ''D.png'', ''notes.txt'', ''C.png'', ''B.png'']
   \<and> decodable_sorted example_cv ''mixed''
       [''A.png'', ''A.jpg'', ''D.png'', ''notes.txt'', ''C.png'', ''B.png'']
     = [''A.jpg'', ''A.png'', ''B.png'', ''C.png'', ''D.png'']
   \<and> load_templates example_cv USE_EDGES ''mixed'' =
       Inr [(''A'', Canny example_cv (gray_image 2 2 [60, 200, 200, 60]) 50 150),
            (''B'', Canny example_cv (gray_image 2 2 [20, 200, 200, 20]) 50 150),
            (''C'', Canny example_cv (gray_image 2 2 [30, 200, 200, 30]) 50 150),
            (''D'', Canny example_cv (gray_image 2 2 [40, 200, 200, 40]) 50 150)]"
  using example_listings(2) decodable_mixed load_example_mixed by (intro conjI)

text \<open>
  Claim C6, amended. A directory that cannot be listed makes the load fail. In a directory
  that can be listed and where \<^verbatim>\<open>cv2.imread\<close> raises on no file, the load succeeds: a file
  for which \<^verbatim>\<open>cv2.imread\<close> returns \<^verbatim>\<open>None\<close> is skipped, and the store has one entry for each
  distinct base name among the decoded files. Its keys are distinct, they are exactly
  those base names, and every entry is what the loop makes of the last decodable file, in
  sorted order, with that base name. When the decodable files have pairwise distinct base
  names, there is one entry per decodable file, in the lexicographic order of the file
  names.
\<close>

theorem C6_load_templates:
  "(listdir cv folder = None \<longrightarrow> load_templates cv ue folder = Inl OSError)
   \<and> (listdir cv folder = Some fnames \<and> (\<forall>fname\<in>set fnames. imread_returns cv folder fname) \<longrightarrow>
        (\<exists>ts. load_templates cv ue folder = Inr ts
           \<and> sorted (decodable_sorted cv folder fnames)
           \<and> distinct (map fst ts)
           \<and> set (map fst ts) = base_name ` set (decodable_sorted cv folder fnames)
           \<and> (\<forall>nt\<in>set ts. \<exists>fname. last_with_base cv folder fnames (fst nt) = Some fname
                  \<and> from_file cv ue folder nt fname)
           \<and> (distinct (map base_name (decodable_sorted cv folder fnames)) \<longrightarrow>
                  map fst ts = map base_name (decodable_sorted cv folder fnames)
                  \<and> length ts = length (decodable_sorted cv folder fnames))))"
proof (intro conjI impI)
  assume "listdir cv folder = None"
  then show "load_templates cv ue folder = Inl OSError" by (simp add: load_templates_def)
next
  assume a: "listdir cv folder = Some fnames \<and> (\<forall>fname\<in>set fnames. imread_returns cv folder fname)"
  then have ls: "listdir cv folder = Some fnames" by simp
  from a have "\<forall>fname\<in>set (sort fnames). imread_returns cv folder fname" by simp
  from load_loop_returns[OF this] obtain ts where
    ll: "load_loop cv ue folder [] (sort fnames) = Inr ts" by blast
  let ?good = "decodable_sorted cv folder fnames"
  have l: "load_templates cv ue folder = Inr ts"
    using ls ll by (simp add: load_templates_def)
  have srt: "sorted ?good"
    unfolding decodable_sorted_def by (simp add: sorted_wrt_filter)
  have d: "distinct (map fst ts)"
    by (rule load_loop_keys_distinct[OF ll]) simp
  have k: "set (map fst ts) = base_name ` set ?good"
    using load_loop_keys_set[OF ll] by (simp add: decodable_sorted_def)
  have e: "\<forall>nt\<in>set ts. \<exists>fname. last_with_base cv folder fnames (fst nt) = Some fname
              \<and> from_file cv ue folder nt fname"
    using load_loop_last_file[OF ll] by blast
  have o: "map fst ts = map base_name ?good \<and> length ts = length ?good"
    if "distinct (map base_name ?good)"
  proof -
    have m: "map fst ts = map base_name ?good"
      using that load_loop_keys_order[OF ll] by (simp add: decodable_sorted_def)
    have "length ts = length ?good"
      using arg_cong[OF m, of length] by (simp only: length_map)
    then show ?thesis using m by blast
  qed
  show "\<exists>ts. load_templates cv ue folder = Inr ts
           \<and> sorted ?good
           \<and> distinct (map fst ts)
           \<and> set (map fst ts) = base_name ` set ?good
           \<and> (\<forall>nt\<in>set ts. \<exists>fname. last_with_base cv folder fnames (fst nt) = Some fname
                  \<and> from_file cv ue folder nt fname)
           \<and> (distinct (map base_name ?good) \<longrightarrow>
                  map fst ts = map base_name ?good \<and> length ts = length ?good)"
    using l srt d k e o by blast
qed

theorem C6_load_templates_witness:
  "\<exists>ts. load_templates example_cv USE_EDGES ''templates'' = Inr ts
      \<and> map fst ts = [''A'', ''B'', ''C'', ''D'', ''E'']
      \<and> length ts = 5"
proof -
  let ?names = "[''B.png'', ''notes.txt'', ''A.png'', ''E.png'', ''D.png'', ''C.png'']"
  let ?good = "decodable_sorted example_cv ''templates'' ?names"
  have dist: "distinct (map base_name ?good)" unfolding templates_base_names by simp
  have hyp: "listdir example_cv ''templates'' = Some ?names
               \<and> (\<forall>fname\<in>set ?names. imread_returns example_cv ''templates'' fname)"
    using example_listings(1) templates_all_return by (rule conjI)
  note c6 = C6_load_templates[of example_cv "''templates''" USE_EDGES ?names,
      THEN conjunct2, THEN mp, OF hyp]
  from c6 obtain ts where c: "load_templates example_cv USE_EDGES ''templates'' = Inr ts
           \<and> sorted ?good
           \<and> distinct (map fst ts)
           \<and> set (map fst ts) = base_name ` set ?good
           \<and> (\<forall>nt\<in>set ts. \<exists>fname. last_with_base example_cv ''templates'' ?names (fst nt) = Some fname
                  \<and> from_file example_cv USE_EDGES ''templates'' nt fname)
           \<and> (distinct (map base_name ?good) \<longrightarrow>
                  map fst ts = map base_name ?good \<and> length ts = length ?good)" ..
  have l: "load_templates example_cv USE_EDGES ''templates'' = Inr ts"
    using c by (rule conjunct1)
  have o: "distinct (map base_name ?good) \<longrightarrow>
                  map fst ts = map base_name ?good \<and> length ts = length ?good"
    using c by (elim conjE)
  from o dist have "map fst ts = map base_name ?good \<and> length ts = length ?good"
    by (rule mp)
  then have "map fst ts = [''A'', ''B'', ''C'', ''D'', ''E''] \<and> length ts = 5"
    by (simp only: templates_base_names templates_count)
  with l have "load_templates example_cv USE_EDGES ''templates'' = Inr ts
      \<and> map fst ts = [''A'', ''B'', ''C'', ''D'', ''E'']
      \<and> length ts = 5" by (rule conjI)
  then show ?thesis by (rule exI)
qed

section \<open>From the symbol to the key\<close>

lemma match_symbol_Some_threshold:
  "match_symbol cv f ts = Inr (Some n, s) \<Longrightarrow> 3 / 4 \<le> s"
  by (auto simp: match_symbol_def THRESHOLD_def split: sum.splits prod.splits if_splits)

lemma command_of_A: "dict_get COMMAND_MAP ''A'' ''(none)'' = ''LEFT''"
  by (simp add: dict_get_def COMMAND_MAP_def)

lemma key_of_LEFT: "KEY_SEND_MAP ''LEFT'' = Some ''left''"
  by (simp add: KEY_SEND_MAP_def)

lemma key_of_none: "KEY_SEND_MAP ''(none)'' = None"
  by (simp add: KEY_SEND_MAP_def)

lemma capture_and_match_Some:
  assumes "match_symbol cv (preprocess cv USE_EDGES frame) (self_templates self) = Inr (Some symbol, score)"
    and "symbol \<noteq> []"
  shows "capture_and_match cv self frame = Inr (show_symbol cv self symbol score)"
  using assms by (simp add: capture_and_match_def)

lemma capture_and_match_None:
  assumes "match_symbol cv (preprocess cv USE_EDGES frame) (self_templates self) = Inr (None, score)"
  shows "capture_and_match cv self frame = Inr (show_no_match self)"
  using assms by (simp add: capture_and_match_def)

lemma example_preprocessed:
  "preprocess example_cv USE_EDGES example_frame = example_gray"
  by (simp add: preprocess_def USE_EDGES_def example_cv_def example_frame_def example_gray_def
      gray_image_def)

lemma score_191: "template_score example_cv example_gray (pixel_template 191) = Inr (91 / 100)"
  by (simp add: template_score_def tmpl_resized_def cv_match_max_def example_cv_def
      example_gray_def gray_image_def pixel_template_def)

lemma example_match_A:
  "match_symbol example_cv example_gray [(''A'', pixel_template 191)] = Inr (Some ''A'', 91 / 100)"
  by (simp add: match_symbol_def score_191 THRESHOLD_def)

lemma example_match_G:
  "match_symbol example_cv example_gray [(''G'', pixel_template 191)] = Inr (Some ''G'', 91 / 100)"
  by (simp add: match_symbol_def score_191 THRESHOLD_def)

lemma detected_label_differs:
  "''Last detected symbol: '' @ symbol @ '' (score='' @ txt @ '')''
     \<noteq> ''Last detected symbol: (no match)''"
proof
  assume "''Last detected symbol: '' @ symbol @ '' (score='' @ txt @ '')''
            = ''Last detected symbol: (no match)''"
  then have "set (''Last detected symbol: '' @ symbol @ '' (score='' @ txt @ '')'')
               = set ''Last detected symbol: (no match)''"
    by (rule arg_cong)
  moreover have "CHR ''='' \<in> set (''Last detected symbol: '' @ symbol @ '' (score='' @ txt @ '')'')"
    by simp
  moreover have "CHR ''='' \<notin> set ''Last detected symbol: (no match)''"
    by simp
  ultimately show False by blast
qed

text \<open>
  Claim C7. In a cycle where the matcher returns the symbol \<^verbatim>\<open>A\<close> (so the score is at
  least the threshold) and key sending is enabled, the command is \<^verbatim>\<open>LEFT\<close>, its key is
  \<^verbatim>\<open>left\<close>, and the cycle adds exactly one call of the key press, with \<^verbatim>\<open>left\<close>.
\<close>

theorem C7_symbol_A_presses_left:
  assumes "match_symbol cv (preprocess cv USE_EDGES frame) (self_templates self)
             = Inr (Some ''A'', score)"
    and "send_keys_cb self"
  shows "3 / 4 \<le> score
       \<and> COMMAND_MAP ''A'' = Some ''LEFT'' \<and> KEY_SEND_MAP ''LEFT'' = Some ''left''
       \<and> (\<exists>self'. capture_and_match cv self frame = Inr self'
             \<and> last_cmd_label self' = ''Mapped command: LEFT''
             \<and> key_presses self' = key_presses self @ [''left''])"
proof -
  have thr: "3 / 4 \<le> score" by (rule match_symbol_Some_threshold[OF assms(1)])
  have cm: "capture_and_match cv self frame = Inr (show_symbol cv self ''A'' score)"
    using assms(1) by (simp add: capture_and_match_def)
  have lbl: "last_cmd_label (show_symbol cv self ''A'' score) = ''Mapped command: LEFT''"
    using assms(2) by (simp add: show_symbol_def Let_def command_of_A key_of_LEFT)
  have keys: "key_presses (show_symbol cv self ''A'' score) = key_presses self @ [''left'']"
    using assms(2) by (simp add: show_symbol_def Let_def command_of_A key_of_LEFT)
  have "COMMAND_MAP ''A'' = Some ''LEFT''" by (simp add: COMMAND_MAP_def)
  then show ?thesis using thr cm lbl keys key_of_LEFT by simp
qed

theorem C7_symbol_A_presses_left_witness:
  "\<exists>self'. capture_and_match example_cv (example_window [(''A'', pixel_template 191)]) example_frame
              = Inr self'
     \<and> last_cmd_label self' = ''Mapped command: LEFT''
     \<and> key_presses self' = [''left'']"
  using C7_symbol_A_presses_left[of example_cv example_frame
      "example_window [(''A'', pixel_template 191)]" "91 / 100"]
  by (simp add: example_preprocessed example_window_def example_match_A)

text \<open>
  Claim C8. A recognised symbol without an entry in the command table resolves to the
  command \<^verbatim>\<open>(none)\<close>; the cycle ends without an error and without a key press, and what
  it shows differs from what a cycle without a recognised symbol shows (\<open>show_no_match\<close>):
  the symbol label names the symbol and its score.
\<close>

theorem C8_unmapped_symbol:
  assumes "match_symbol cv (preprocess cv USE_EDGES frame) (self_templates self)
             = Inr (Some symbol, score)"
    and "symbol \<noteq> []" and "COMMAND_MAP symbol = None"
  shows "dict_get COMMAND_MAP symbol ''(none)'' = ''(none)''
       \<and> (\<exists>self'. capture_and_match cv self frame = Inr self'
             \<and> last_cmd_label self' = ''Mapped command: (none)''
             \<and> key_presses self' = key_presses self
             \<and> last_text_label self' \<noteq> last_text_label (show_no_match self))"
proof -
  have dg: "dict_get COMMAND_MAP symbol ''(none)'' = ''(none)''"
    using assms(3) by (simp add: dict_get_def)
  have cm: "capture_and_match cv self frame = Inr (show_symbol cv self symbol score)"
    by (rule capture_and_match_Some[OF assms(1,2)])
  have lbl: "last_cmd_label (show_symbol cv self symbol score) = ''Mapped command: (none)''"
    by (simp add: show_symbol_def Let_def dg key_of_none)
  have keys: "key_presses (show_symbol cv self symbol score) = key_presses self"
    by (simp add: show_symbol_def Let_def dg key_of_none)
  have shown: "last_text_label (show_symbol cv self symbol score)
               = ''Last detected symbol: '' @ symbol @ '' (score='' @ format_2f cv score @ '')''"
    by (simp add: show_symbol_def Let_def dg key_of_none)
  have nm: "last_text_label (show_no_match self) = ''Last detected symbol: (no match)''"
    by (simp add: show_no_match_def)
  have "last_text_label (show_symbol cv self symbol score) \<noteq> last_text_label (show_no_match self)"
    unfolding shown nm by (rule detected_label_differs)
  then show ?thesis using dg cm lbl keys by simp
qed

theorem C8_unmapped_symbol_witness:
  "dict_get COMMAND_MAP ''G'' ''(none)'' = ''(none)''
   \<and> (\<exists>self'. capture_and_match example_cv (example_window [(''G'', pixel_template 191)])
                 example_frame = Inr self'
          \<and> last_cmd_label self' = ''Mapped command: (none)''
          \<and> key_presses self' = []
          \<and> last_text_label self' \<noteq> ''Last detected symbol: (no match)'')"
  using C8_unmapped_symbol[of example_cv example_frame
      "example_window [(''G'', pixel_template 191)]" "''G''" "91 / 100"]
  by (simp add: example_preprocessed example_window_def example_match_G COMMAND_MAP_def
      show_no_match_def)

end
